theory Spec2Isabelle
  imports Main "HOL-Library.Char_ord" "HOL-Library.List_Lexorder" "HOL-Library.Product_Lexorder"
begin

section \<open>Characters and strings\<close>

text \<open>
  A Python \<open>str\<close> is modelled as a \<open>string\<close> whose characters are the code points
  0..255 (Latin-1).  The classes below are those of Python's \<open>re\<close> module for
  \<open>str\<close> patterns, restricted to that range: \<open>\d\<close> is 0-9 only, \<open>\s\<close> is
  the set for which \<open>str.isspace\<close> holds, \<open>\w\<close> is \<open>str.isalnum\<close> plus the
  underscore.
\<close>

definition py_ord :: "char \<Rightarrow> nat" where
  "py_ord c = of_char c"

definition is_digit :: "char \<Rightarrow> bool" where
  "is_digit c = (48 \<le> py_ord c \<and> py_ord c \<le> 57)"

definition is_upper :: "char \<Rightarrow> bool" where
  "is_upper c = (65 \<le> py_ord c \<and> py_ord c \<le> 90)"

definition is_lower :: "char \<Rightarrow> bool" where
  "is_lower c = (97 \<le> py_ord c \<and> py_ord c \<le> 122)"

text \<open>The class \<open>[a-zA-Z]\<close>.\<close>

definition is_alpha :: "char \<Rightarrow> bool" where
  "is_alpha c = (is_upper c \<or> is_lower c)"

text \<open>The class \<open>\s\<close>.\<close>

definition is_space :: "char \<Rightarrow> bool" where
  "is_space c = ((9 \<le> py_ord c \<and> py_ord c \<le> 13) \<or> (28 \<le> py_ord c \<and> py_ord c \<le> 32)
     \<or> py_ord c = 133 \<or> py_ord c = 160)"

text \<open>The class \<open>\w\<close>.\<close>

definition is_word :: "char \<Rightarrow> bool" where
  "is_word c = (is_digit c \<or> is_alpha c \<or> py_ord c = 95 \<or> py_ord c = 170
     \<or> py_ord c = 178 \<or> py_ord c = 179 \<or> py_ord c = 181 \<or> py_ord c = 185 \<or> py_ord c = 186
     \<or> (188 \<le> py_ord c \<and> py_ord c \<le> 190) \<or> (192 \<le> py_ord c \<and> py_ord c \<le> 214)
     \<or> (216 \<le> py_ord c \<and> py_ord c \<le> 246) \<or> 248 \<le> py_ord c)"

text \<open>The class \<open>[-_\s]\<close>.\<close>

definition is_sep :: "char \<Rightarrow> bool" where
  "is_sep c = (c = CHR ''-'' \<or> c = CHR ''_'' \<or> is_space c)"

text \<open>The class \<open>[A-Za-z0-9]\<close>.\<close>

definition is_alnum :: "char \<Rightarrow> bool" where
  "is_alnum c = (is_alpha c \<or> is_digit c)"

text \<open>\<open>str.lower\<close> and \<open>str.upper\<close>, character by character.  \<open>upper_char\<close> is
  only ever applied to a character of \<open>[a-zA-Z]\<close>.\<close>

definition lower_char :: "char \<Rightarrow> char" where
  "lower_char c = (if is_upper c \<or> (192 \<le> py_ord c \<and> py_ord c \<le> 222 \<and> py_ord c \<noteq> 215)
     then char_of (py_ord c + 32) else c)"

definition upper_char :: "char \<Rightarrow> char" where
  "upper_char c = (if is_lower c then char_of (py_ord c - 32) else c)"

definition lower :: "string \<Rightarrow> string" where
  "lower s = map lower_char s"

text \<open>\<open>str.strip()\<close>.\<close>

definition strip :: "string \<Rightarrow> string" where
  "strip s = dropWhile is_space (rev (dropWhile is_space (rev s)))"

text \<open>\<open>sep.join(xs)\<close>.\<close>

fun join :: "string \<Rightarrow> string list \<Rightarrow> string" where
  "join sep [] = []"
| "join sep [x] = x"
| "join sep (x # y # ys) = x @ sep @ join sep (y # ys)"

text \<open>\<open>str(n)\<close> for a natural number.\<close>

definition digit_char :: "nat \<Rightarrow> char" where
  "digit_char d = char_of (48 + d)"

function str_nat :: "nat \<Rightarrow> string" where
  "str_nat n = (if n < 10 then [digit_char n] else str_nat (n div 10) @ [digit_char (n mod 10)])"
  by pat_completeness auto
termination
  by (relation "measure id") auto

declare str_nat.simps [simp del]

text \<open>\<open>os.path.splitext\<close>: the extension starts at the last dot of the final path
  component, unless only dots precede it there.\<close>

definition after_last :: "char \<Rightarrow> string \<Rightarrow> string" where
  "after_last c s = rev (takeWhile (\<lambda>x. x \<noteq> c) (rev s))"

definition splitext :: "string \<Rightarrow> string \<times> string" where
  "splitext p =
     (let base = after_last CHR ''/'' p;
          e = after_last CHR ''.'' base;
          stem = take (length base - length e - 1) base
      in if CHR ''.'' \<in> set base \<and> (\<exists>c \<in> set stem. c \<noteq> CHR ''.'')
         then (take (length p - length e - 1) p, CHR ''.'' # e)
         else (p, []))"

section \<open>Normalizer (organize.py)\<close>

text \<open>The regular expression \<open>_v\d+$\<close> anchored at the head of \<open>s\<close>: \<open>$\<close> matches at
  the end of the string and before a final line feed.\<close>

definition version_here :: "string \<Rightarrow> bool" where
  "version_here s =
     (case s of
        c1 # c2 # r \<Rightarrow> c1 = CHR ''_'' \<and> c2 = CHR ''v'' \<and> takeWhile is_digit r \<noteq> []
           \<and> (dropWhile is_digit r = [] \<or> dropWhile is_digit r = [CHR 0x0A])
      | _ \<Rightarrow> False)"

text \<open>\<open>re.search(r'_v\d+$', s)\<close>: the text before the match and the matched text
  (\<open>s[:m.start()]\<close> and \<open>m.group(0)\<close>).\<close>

fun search_version :: "string \<Rightarrow> (string \<times> string) option" where
  "search_version [] = None"
| "search_version (c # cs) =
     (if version_here (c # cs) then Some ([], ''_v'' @ takeWhile is_digit (drop 1 cs))
      else map_option (\<lambda>(p, m). (c # p, m)) (search_version cs))"

definition strip_version :: "string \<Rightarrow> string \<times> string" where
  "strip_version basename =
     (case search_version basename of Some (p, m) \<Rightarrow> (p, m) | None \<Rightarrow> (basename, []))"

definition normalize_filename :: "string \<Rightarrow> string" where
  "normalize_filename filename =
     (let (basename, ext) = splitext filename;
          basename = fst (strip_version basename);
          normalized = lower (strip (filter (\<lambda>c. \<not> is_sep c) basename))
      in normalized @ lower ext)"

text \<open>\<open>re.search(r'([a-zA-Z])$', s)\<close>: the matched letter.\<close>

definition search_final_alpha :: "string \<Rightarrow> char option" where
  "search_final_alpha s =
     (case rev s of
        [] \<Rightarrow> None
      | c # r \<Rightarrow> if is_alpha c then Some c
                 else if c = CHR 0x0A then (case r of d # _ \<Rightarrow> if is_alpha d then Some d else None | [] \<Rightarrow> None)
                 else None)"

definition convert_alpha_to_numeric_suffix :: "string \<Rightarrow> string" where
  "convert_alpha_to_numeric_suffix filename =
     (let (basename, ext) = splitext filename;
          (basename, version_suffix) = strip_version basename
      in case search_final_alpha basename of
           Some m \<Rightarrow>
             let alpha_char = upper_char m;
                 numeric_value = py_ord alpha_char - py_ord CHR ''A'' + 1;
                 converted_basename = butlast basename @ str_nat numeric_value
             in converted_basename @ version_suffix @ ext
         | None \<Rightarrow> basename @ version_suffix @ ext)"

definition normalize_filename_with_alpha_numeric :: "string \<Rightarrow> string" where
  "normalize_filename_with_alpha_numeric filename =
     normalize_filename (convert_alpha_to_numeric_suffix filename)"

section \<open>Name/Code/Variant extractor (organize.py)\<close>

text \<open>\<open>re.fullmatch(r'^[A-Za-z0-9]$', word)\<close>.\<close>

definition is_variant_code :: "string \<Rightarrow> bool" where
  "is_variant_code word = (case word of [c] \<Rightarrow> is_alnum c | _ \<Rightarrow> False)"

text \<open>\<open>re.sub(r'[^\w\s\.-]', '', s)\<close>.\<close>

definition clean :: "string \<Rightarrow> string" where
  "clean s = filter (\<lambda>c. is_word c \<or> is_space c \<or> c = CHR ''.'' \<or> c = CHR ''-'') s"

text \<open>\<open>re.split(r'[-_\s]', s)\<close>.\<close>

fun split_seps :: "string \<Rightarrow> string list" where
  "split_seps [] = [[]]"
| "split_seps (c # cs) =
     (if is_sep c then [] # split_seps cs
      else (case split_seps cs of w # ws \<Rightarrow> (c # w) # ws | [] \<Rightarrow> [[c]]))"

definition tokens :: "string \<Rightarrow> string list" where
  "tokens basename = filter (\<lambda>p. p \<noteq> []) (split_seps (clean basename))"

text \<open>\<open>re.fullmatch(r'[a-zA-Z]+', s)\<close>, \<open>re.fullmatch(r'\d+', s)\<close>,
  \<open>re.search(r'[a-zA-Z]', s)\<close> and \<open>re.search(r'\d', s)\<close>.\<close>

definition all_alpha :: "string \<Rightarrow> bool" where
  "all_alpha s = (s \<noteq> [] \<and> list_all is_alpha s)"

definition all_digits :: "string \<Rightarrow> bool" where
  "all_digits s = (s \<noteq> [] \<and> list_all is_digit s)"

definition has_alpha :: "string \<Rightarrow> bool" where
  "has_alpha s = list_ex is_alpha s"

definition has_digit :: "string \<Rightarrow> bool" where
  "has_digit s = list_ex is_digit s"

text \<open>\<open>re.search(r'\d+\.\d+', s)\<close>.\<close>

fun has_dotted_version :: "string \<Rightarrow> bool" where
  "has_dotted_version (a # b # c # r) =
     ((is_digit a \<and> b = CHR ''.'' \<and> is_digit c) \<or> has_dotted_version (b # c # r))"
| "has_dotted_version _ = False"

text \<open>\<open>re.match(r'^([a-zA-Z]+)(\d+.*)$', s)\<close>: groups 1 and 2.  The dot does not
  match a line feed, and \<open>$\<close> also matches before a final one.\<close>

definition brand_model_match :: "string \<Rightarrow> (string \<times> string) option" where
  "brand_model_match s =
     (let brand = takeWhile is_alpha s;
          rest = dropWhile is_alpha s;
          model = (if rest \<noteq> [] \<and> last rest = CHR 0x0A then butlast rest else rest)
      in if brand \<noteq> [] \<and> model \<noteq> [] \<and> is_digit (hd model) \<and> CHR 0x0A \<notin> set model
         then Some (brand, model) else None)"

text \<open>The special case for patterns like \<open>Uniserve-UNIO22-4\<close>.\<close>

definition special_case :: "string list \<Rightarrow> (string \<times> string) option" where
  "special_case parts =
     (case parts of
        first_part # second_part # third_part # rest \<Rightarrow>
          if all_alpha first_part \<and> has_alpha second_part \<and> has_digit second_part
             \<and> all_digits third_part
          then Some (first_part, join ''-'' (second_part # third_part # rest))
          else None
      | _ \<Rightarrow> None)"

text \<open>The variant check: a single letter or digit as last of several parts.\<close>

definition pop_variant :: "string list \<Rightarrow> string option \<times> string list" where
  "pop_variant parts =
     (if length parts > 1 \<and> is_variant_code (last parts)
      then (Some (last parts), butlast parts) else (None, parts))"

text \<open>The index of the first part for which \<open>P\<close> holds (the \<open>for ... break\<close> loops).\<close>

fun first_index :: "('a \<Rightarrow> bool) \<Rightarrow> 'a list \<Rightarrow> nat option" where
  "first_index P [] = None"
| "first_index P (x # xs) = (if P x then Some 0 else map_option Suc (first_index P xs))"

text \<open>The split of the parts into \<open>name_parts\<close> and \<open>code_parts\<close>.\<close>

definition split_name_code :: "string list \<Rightarrow> string list \<times> string list" where
  "split_name_code parts =
     (case first_index has_dotted_version parts of
        Some tech_with_version_idx \<Rightarrow>
          if tech_with_version_idx = 0 then (take 1 parts, drop 1 parts)
          else (take tech_with_version_idx parts, drop tech_with_version_idx parts)
      | None \<Rightarrow>
          (case parts of
             [] \<Rightarrow> ([], [])
           | [single_part] \<Rightarrow>
               (case brand_model_match single_part of
                  Some (brand, model) \<Rightarrow> ([brand], [model])
                | None \<Rightarrow> ([single_part], []))
           | [first_part, second_part] \<Rightarrow>
               (case brand_model_match first_part of
                  Some (brand, model_part1) \<Rightarrow> ([brand], [model_part1, second_part])
                | None \<Rightarrow>
                    if all_alpha first_part \<and> has_digit second_part
                    then ([first_part], [second_part])
                    else if length second_part \<ge> 2 then ([first_part], [second_part])
                    else (parts, []))
           | first_part # _ \<Rightarrow>
               if all_alpha first_part then ([first_part], drop 1 parts)
               else
                 let product_code_start =
                       (case first_index has_digit (drop 1 parts) of
                          Some i \<Rightarrow> i + 1 | None \<Rightarrow> 1)
                 in (take product_code_start parts, drop product_code_start parts)))"

text \<open>\<open>re.sub(rf'^{re.escape(name_part)}[-_\s]*', '', code_portion, 1)\<close>.\<close>

definition strip_name_prefix :: "string \<Rightarrow> string \<Rightarrow> string" where
  "strip_name_prefix code_portion name_part =
     (if take (length name_part) code_portion = name_part
      then dropWhile is_sep (drop (length name_part) code_portion)
      else code_portion)"

text \<open>\<open>re.sub(rf'[-_\s]*{re.escape(variant)}$', '', code_portion)\<close> for a variant
  of one character: the match ends at the last character, or just before a final
  line feed, and starts at the beginning of the separators before it.\<close>

definition strip_variant_suffix :: "string \<Rightarrow> string \<Rightarrow> string" where
  "strip_variant_suffix variant code_portion =
     (let r = rev code_portion in
      if variant \<noteq> [] \<and> take (length variant) r = rev variant
      then rev (dropWhile is_sep (drop (length variant) r))
      else if variant \<noteq> [] \<and> take 1 r = [CHR 0x0A] \<and> take (length variant) (drop 1 r) = rev variant
      then rev (dropWhile is_sep (drop (length variant + 1) r)) @ [CHR 0x0A]
      else code_portion)"

definition assemble_code ::
  "string \<Rightarrow> string list \<Rightarrow> string list \<Rightarrow> string option \<Rightarrow> string option" where
  "assemble_code basename name_parts code_parts variant =
     (if code_parts = [] then None
      else if length code_parts > 1 then
        (let code_portion = foldl strip_name_prefix basename name_parts;
             code_portion = (case variant of Some v \<Rightarrow> strip_variant_suffix v code_portion
                             | None \<Rightarrow> code_portion)
         in if CHR ''_'' \<in> set code_portion \<and> CHR ''-'' \<notin> set code_portion
            then Some (join ''_'' code_parts)
            else Some (join ''-'' code_parts))
      else Some (hd code_parts))"

text \<open>Python's truth value of an optional string: \<open>None\<close> and \<open>''\<close> are false.\<close>

definition truthy :: "string option \<Rightarrow> bool" where
  "truthy x = (case x of None \<Rightarrow> False | Some s \<Rightarrow> s \<noteq> [])"

definition extract_name_code_variant ::
  "string \<Rightarrow> string option \<times> string option \<times> string option" where
  "extract_name_code_variant original_basename =
     (let basename = fst (strip_version original_basename);
          parts = tokens basename
      in if parts = [] then (None, None, None)
         else case special_case parts of
           Some (first_part, product_code) \<Rightarrow> (Some first_part, Some product_code, None)
         | None \<Rightarrow>
            (let (variant, parts) = pop_variant parts;
                 (name_parts, code_parts) = split_name_code parts;
                 name = (if name_parts \<noteq> [] then Some (strip (join '' '' name_parts)) else None);
                 code = assemble_code basename name_parts code_parts variant;
                 (name, code) =
                    (if \<not> truthy name \<and> truthy code
                        \<and> \<not> has_digit (the code) \<and> CHR ''-'' \<notin> set (the code)
                     then (Some (map (\<lambda>c. if c = CHR ''-'' then CHR '' '' else c) (the code)), None)
                     else (name, code));
                 name = (if \<not> truthy name \<and> \<not> truthy code
                         then (if parts \<noteq> [] then Some (join '' '' (take 1 parts)) else None)
                         else name)
             in (name, code, variant)))"


text \<open>Parts without whitespace, and the characters a token is made of: word characters
  other than the underscore, and the dot.\<close>

definition good_parts :: "string list \<Rightarrow> bool" where
  "good_parts ps = (\<forall>t \<in> set ps. t \<noteq> [] \<and> (\<forall>c \<in> set t. \<not> is_space c))"

definition token_char :: "char \<Rightarrow> bool" where
  "token_char c = ((is_word c \<and> c \<noteq> CHR ''_'') \<or> c = CHR ''.'')"

text \<open>The 1-based position of a letter in the alphabet, \<open>A\<close> and \<open>a\<close> being 1 and
  \<open>Z\<close> and \<open>z\<close> being 26.\<close>

definition alpha_position :: "char \<Rightarrow> nat" where
  "alpha_position c = (if is_upper c then py_ord c - 64 else py_ord c - 96)"

section \<open>Code consolidator (organize.py)\<close>

text \<open>\<open>re.match(r'^([A-Za-z0-9]+)', code)\<close>: group 1, the leading run of letters and
  digits.\<close>

definition base_match :: "string \<Rightarrow> string option" where
  "base_match code = (let base = takeWhile is_alnum code in if base = [] then None else Some base)"

text \<open>\<open>code_groups[base].append(code)\<close> on a \<open>defaultdict(list)\<close>, kept as an association
  list in insertion order.\<close>

fun group_append :: "(string \<times> string list) list \<Rightarrow> string \<Rightarrow> string \<Rightarrow> (string \<times> string list) list" where
  "group_append [] base code = [(base, [code])]"
| "group_append ((b, codes) # groups) base code =
     (if b = base then (b, codes @ [code]) # groups
      else (b, codes) # group_append groups base code)"

definition group_codes :: "string list \<Rightarrow> (string \<times> string list) list" where
  "group_codes product_codes =
     foldl (\<lambda>code_groups code.
              case base_match code of
                Some base \<Rightarrow> group_append code_groups base code
              | None \<Rightarrow> code_groups)
       [] product_codes"

text \<open>\<open>sorted(codes, key=lambda x: (-len(x), x))[0]\<close>: pairs are compared
  lexicographically, strings by code points.\<close>

definition most_specific :: "string list \<Rightarrow> string" where
  "most_specific codes = hd (sort_key (\<lambda>x. (- int (length x), x)) codes)"

definition consolidate_group :: "(string \<rightharpoonup> string) \<Rightarrow> string list \<Rightarrow> (string \<rightharpoonup> string)" where
  "consolidate_group consolidated codes =
     (if length codes = 1 then consolidated(hd codes \<mapsto> hd codes)
      else foldl (\<lambda>consolidated code. consolidated(code \<mapsto> most_specific codes))
             consolidated codes)"

text \<open>The argument is a Python set, given here by the list of its elements in iteration
  order.  For the empty set the source returns the set itself, on which the caller only
  tests membership: it is the empty mapping here.\<close>

definition consolidate_product_codes :: "string list \<Rightarrow> (string \<rightharpoonup> string)" where
  "consolidate_product_codes product_codes =
     (if product_codes = [] then Map.empty
      else foldl consolidate_group Map.empty (map snd (group_codes product_codes)))"

section \<open>The file tree\<close>

text \<open>
  A directory tree: a file has a name and a content (an identifier), a directory has a
  name and the list of its entries, in the order in which \<open>os.listdir\<close> and \<open>os.walk\<close>
  list them.  A path is the list of the names below the root of the tree.  There are no
  symbolic links.
\<close>

datatype node = File string nat | Dir string "node list"

type_synonym path = "string list"

fun node_name :: "node \<Rightarrow> string" where
  "node_name (File n c) = n"
| "node_name (Dir n es) = n"

fun is_dir :: "node \<Rightarrow> bool" where
  "is_dir (File n c) = False"
| "is_dir (Dir n es) = True"

fun entries :: "node \<Rightarrow> node list" where
  "entries (File n c) = []"
| "entries (Dir n es) = es"

text \<open>The paths and contents of all files of a tree, and the paths of all directories
  below its root.\<close>

fun file_paths :: "node \<Rightarrow> (path \<times> nat) list" where
  "file_paths (File n c) = [([], c)]"
| "file_paths (Dir n es) =
     concat (map (\<lambda>e. map (\<lambda>(p, c). (node_name e # p, c)) (file_paths e)) es)"

fun dir_paths :: "node \<Rightarrow> path list" where
  "dir_paths (File n c) = []"
| "dir_paths (Dir n es) =
     concat (map (\<lambda>e. if is_dir e then [node_name e] # map (\<lambda>p. node_name e # p) (dir_paths e) else []) es)"

fun find_entry :: "string \<Rightarrow> node list \<Rightarrow> node option" where
  "find_entry n [] = None"
| "find_entry n (e # es) = (if node_name e = n then Some e else find_entry n es)"

fun lookup :: "node \<Rightarrow> path \<Rightarrow> node option" where
  "lookup t [] = Some t"
| "lookup t (n # p) = (case find_entry n (entries t) of Some e \<Rightarrow> lookup e p | None \<Rightarrow> None)"

text \<open>Removal of the entry at a path (\<open>rmdir\<close>, \<open>rmtree\<close>, the source side of a move).\<close>

fun remove_at :: "path \<Rightarrow> node \<Rightarrow> node" where
  "remove_at p (File n c) = File n c"
| "remove_at [] (Dir n es) = Dir n es"
| "remove_at [x] (Dir n es) = Dir n (filter (\<lambda>e. node_name e \<noteq> x) es)"
| "remove_at (x # y # p) (Dir n es) =
     Dir n (map (\<lambda>e. if node_name e = x then remove_at (y # p) e else e) es)"

text \<open>No directory has two entries of the same name.\<close>

fun wf_tree :: "node \<Rightarrow> bool" where
  "wf_tree (File n c) = True"
| "wf_tree (Dir n es) = (distinct (map node_name es) \<and> list_all wf_tree es)"

section \<open>Pruning of empty folders\<close>

text \<open>
  organize.py, \<open>clean_up_empty_product_folders\<close>.  The inner \<open>os.walk\<close> of a directory
  finds it empty when no directory of its subtree has a file or a subdirectory with a name
  other than \<open>Old Images\<close>.
\<close>

fun is_empty :: "node \<Rightarrow> bool" where
  "is_empty (File n c) = False"
| "is_empty (Dir n es) =
     list_all (\<lambda>e. is_dir e \<and> node_name e = ''Old Images'' \<and> is_empty e) es"

text \<open>
  The outer \<open>os.walk(..., topdown=False)\<close> reaches a directory after its subdirectories;
  there every subdirectory not named \<open>Old Images\<close> that is found empty is removed by
  \<open>shutil.rmtree\<close>.  \<open>rm p\<close> tells whether the removal at path \<open>p\<close> succeeds; when it
  raises \<open>OSError\<close> the directory stays.  The root itself is never removed.
\<close>

fun clean_up :: "(path \<Rightarrow> bool) \<Rightarrow> path \<Rightarrow> node \<Rightarrow> node" where
  "clean_up rm root (File n c) = File n c"
| "clean_up rm root (Dir n es) =
     Dir n (filter (\<lambda>e. \<not> (is_dir e \<and> node_name e \<noteq> ''Old Images'' \<and> is_empty e
                             \<and> rm (root @ [node_name e])))
              (map (\<lambda>e. clean_up rm (root @ [node_name e]) e) es))"

definition clean_up_empty_product_folders :: "(path \<Rightarrow> bool) \<Rightarrow> node \<Rightarrow> node" where
  "clean_up_empty_product_folders rm webp_folder = clean_up rm [] webp_folder"

text \<open>
  split.py, \<open>remove_empty_dirs_aggressive\<close>.  \<open>all_dirs\<close> is collected by a bottom-up
  walk and sorted by depth, deepest first; each directory that still exists, is not a
  kept folder and has no entry is removed (\<open>force_remove_directory\<close>, which succeeds
  where \<open>rm\<close> holds).
\<close>

fun walk_dirs :: "path \<Rightarrow> node \<Rightarrow> path list" where
  "walk_dirs root (File n c) = []"
| "walk_dirs root (Dir n es) =
     concat (map (\<lambda>e. walk_dirs (root @ [node_name e]) e) es)
       @ map (\<lambda>e. root @ [node_name e]) (filter is_dir es)"

text \<open>The directories that a bottom-up walk visits, in the order of the visits.\<close>

fun walk_roots :: "path \<Rightarrow> node \<Rightarrow> path list" where
  "walk_roots root (File n c) = []"
| "walk_roots root (Dir n es) =
     concat (map (\<lambda>e. walk_roots (root @ [node_name e]) e) es) @ [root]"

definition kept_folders :: "path list" where
  "kept_folders = [[], [''Needs Labeling''], [''__WEBP To be move to the right folders''],
     [''gslisting'']]"

definition is_directory_truly_empty :: "node \<Rightarrow> path \<Rightarrow> bool" where
  "is_directory_truly_empty t p = (case lookup t p of Some (Dir n []) \<Rightarrow> True | _ \<Rightarrow> False)"

definition exists_dir :: "node \<Rightarrow> path \<Rightarrow> bool" where
  "exists_dir t p = (lookup t p \<noteq> None)"

text \<open>One directory of a pass: the tree and the counter of removals.\<close>

definition remove_if_empty :: "(path \<Rightarrow> bool) \<Rightarrow> node \<times> nat \<Rightarrow> path \<Rightarrow> node \<times> nat" where
  "remove_if_empty rm s dir_path =
     (let (t, removed) = s in
      if dir_path \<in> set kept_folders \<or> \<not> exists_dir t dir_path then s
      else if is_directory_truly_empty t dir_path \<and> rm dir_path
           then (remove_at dir_path t, removed + 1)
           else s)"

definition prune_pass :: "(path \<Rightarrow> bool) \<Rightarrow> node \<Rightarrow> node \<times> nat" where
  "prune_pass rm t =
     (let all_dirs = sort_key (\<lambda>p. - int (length p)) (walk_dirs [] t)
      in foldl (remove_if_empty rm) (t, 0) all_dirs)"

text \<open>At most \<open>max_passes\<close> passes, stopping after a pass that removed nothing.\<close>

fun prune_passes :: "nat \<Rightarrow> (path \<Rightarrow> bool) \<Rightarrow> node \<times> nat \<Rightarrow> node \<times> nat" where
  "prune_passes 0 rm s = s"
| "prune_passes (Suc k) rm (t, removed) =
     (let (t', current_pass_removed) = prune_pass rm t
      in if current_pass_removed = 0 then (t', removed)
         else prune_passes k rm (t', removed + current_pass_removed))"

text \<open>The final verification: the directories visited by the walk that are not kept and
  have no entry are removed once more.  The result is the tree, the
  number of removals and the number of empty directories left.\<close>

definition remove_empty_dirs_aggressive :: "(path \<Rightarrow> bool) \<Rightarrow> node \<Rightarrow> node \<times> nat \<times> nat" where
  "remove_empty_dirs_aggressive rm start =
     (let (t, removed) = prune_passes 10 rm (start, 0);
          remaining_empty = filter (\<lambda>p. p \<notin> set kept_folders \<and> p \<noteq> []
                                        \<and> is_directory_truly_empty t p) (walk_roots [] t);
          (t', final_removed) =
             foldl (\<lambda>(t, k) p. if rm p then (remove_at p t, k + 1) else (t, k)) (t, 0) remaining_empty
      in (t', removed + final_removed, length remaining_empty - final_removed))"

section \<open>Folder materializer (organize.py)\<close>

text \<open>\<open>re.search\<close> of a pattern that ends in \<open>$\<close> and cannot match the empty string:
  the text before the leftmost position where the pattern, given by \<open>here\<close>, matches the
  whole rest of the string.\<close>

fun search_tail :: "(string \<Rightarrow> bool) \<Rightarrow> string \<Rightarrow> string option" where
  "search_tail here [] = None"
| "search_tail here (c # cs) =
     (if here (c # cs) then Some [] else map_option (\<lambda>p. c # p) (search_tail here cs))"

text \<open>The end of a match of \<open>$\<close>: the end of the string, or a final line feed.\<close>

definition at_end :: "string \<Rightarrow> bool" where
  "at_end s = (s = [] \<or> s = [CHR 0x0A])"

text \<open>The patterns \<open>[-_]([A-Za-z])$\<close>, \<open>[-_](\d+)$\<close> and \<open>[-_]([A-Za-z]\d+)$\<close>.\<close>

definition letter_suffix_here :: "string \<Rightarrow> bool" where
  "letter_suffix_here s =
     (case s of c # l # r \<Rightarrow> (c = CHR ''-'' \<or> c = CHR ''_'') \<and> is_alpha l \<and> at_end r
      | _ \<Rightarrow> False)"

definition digit_suffix_here :: "string \<Rightarrow> bool" where
  "digit_suffix_here s =
     (case s of c # r \<Rightarrow> (c = CHR ''-'' \<or> c = CHR ''_'') \<and> takeWhile is_digit r \<noteq> []
                  \<and> at_end (dropWhile is_digit r)
      | _ \<Rightarrow> False)"

definition letter_digit_suffix_here :: "string \<Rightarrow> bool" where
  "letter_digit_suffix_here s =
     (case s of c # l # r \<Rightarrow> (c = CHR ''-'' \<or> c = CHR ''_'') \<and> is_alpha l
                  \<and> takeWhile is_digit r \<noteq> [] \<and> at_end (dropWhile is_digit r)
      | _ \<Rightarrow> False)"

text \<open>\<open>extract_basename_and_suffix\<close>; only the basename is used by its callers.\<close>

definition extract_basename :: "string \<Rightarrow> string" where
  "extract_basename filename =
     (let basename_no_ext = fst (strip_version (fst (splitext filename)))
      in case search_tail letter_suffix_here basename_no_ext of
           Some basename \<Rightarrow> basename
         | None \<Rightarrow>
            (case search_tail digit_suffix_here basename_no_ext of
               Some basename \<Rightarrow> basename
             | None \<Rightarrow>
                (case search_tail letter_digit_suffix_here basename_no_ext of
                   Some basename \<Rightarrow> basename
                 | None \<Rightarrow> basename_no_ext)))"

text \<open>\<open>get_file_category\<close>, the category split at \<open>/\<close>.\<close>

definition get_file_category :: "string \<Rightarrow> path option" where
  "get_file_category filename =
     (let ext = lower (snd (splitext filename)); basename = lower (after_last CHR ''/'' filename)
      in if take 3 basename = ''img'' then Some [''Unedited'']
         else if ext = ''.webp'' then Some [''WEBP'']
         else if ext \<in> set [''.jpg'', ''.jpeg'', ''.png''] then Some [''JPEG'']
         else if ext = ''.mov'' then Some [''Video'', ''Unedited video'']
         else if ext = ''.mp4'' then Some [''Video'', ''Edited video'']
         else None)"

text \<open>The duplicate test of \<open>find_existing_file_variant\<close>: the four comparisons of the
  standard and the alpha-numeric keys.\<close>

definition variant_match :: "string \<Rightarrow> string \<Rightarrow> bool" where
  "variant_match filename existing_file =
     (let normalized_new = normalize_filename filename;
          alpha_numeric_new = normalize_filename_with_alpha_numeric filename;
          normalized_existing = normalize_filename existing_file;
          alpha_numeric_existing = normalize_filename_with_alpha_numeric existing_file
      in normalized_new = normalized_existing \<or> alpha_numeric_new = alpha_numeric_existing
         \<or> normalized_new = alpha_numeric_existing \<or> alpha_numeric_new = normalized_existing)"

text \<open>The first regular file of the target folder, in listing order, that passes the
  duplicate test.\<close>

definition find_existing_file_variant :: "node \<Rightarrow> path \<Rightarrow> string \<Rightarrow> path option" where
  "find_existing_file_variant t target_folder filename =
     (case lookup t target_folder of
        None \<Rightarrow> None
      | Some d \<Rightarrow>
         (case filter (\<lambda>e. \<not> is_dir e \<and> variant_match filename (node_name e)) (entries d) of
            [] \<Rightarrow> None
          | e # _ \<Rightarrow> Some (target_folder @ [node_name e])))"

text \<open>Errors: an \<open>OSError\<close> that the source does not catch; a run that leaves the
  tree below the root (a brand or product code \<open>..\<close>), which the tree cannot show; and a
  glob pattern built from a file name with a metacharacter of its own (\<open>*\<close>, \<open>?\<close> or
  \<open>[\<close>), which the matching below does not cover.\<close>

datatype py_error = OSError | OutsideTree | Metacharacter

text \<open>Changes of the entries of the directory at a path.\<close>

fun modify_dir :: "path \<Rightarrow> (node list \<Rightarrow> node list) \<Rightarrow> node \<Rightarrow> node" where
  "modify_dir p f (File n c) = File n c"
| "modify_dir [] f (Dir n es) = Dir n (f es)"
| "modify_dir (x # p) f (Dir n es) =
     Dir n (map (\<lambda>e. if node_name e = x then modify_dir p f e else e) es)"

fun rename_node :: "string \<Rightarrow> node \<Rightarrow> node" where
  "rename_node m (File n c) = File m c"
| "rename_node m (Dir n es) = Dir m es"

text \<open>Two lookups agree when both find nothing, both find the same file, or both find a
  directory of the same name.\<close>

fun same_kind :: "node option \<Rightarrow> node option \<Rightarrow> bool" where
  "same_kind None b = (b = None)"
| "same_kind (Some (File n c)) b = (b = Some (File n c))"
| "same_kind (Some (Dir m ms)) b = (case b of Some (Dir m' ms') \<Rightarrow> m' = m | _ \<Rightarrow> False)"

text \<open>What the operating system refuses although the tree allows it (a name or a path
  that is too long, a missing permission, a full disk) is not decided by the tree: \<open>mk p\<close>
  says that it creates a directory at the path \<open>p\<close>, and \<open>mv src dst\<close> that it moves the
  entry at \<open>src\<close> to the path \<open>dst\<close>.\<close>

text \<open>\<open>os.makedirs(path, exist_ok=True)\<close>: the missing directories of the path are
  created, each listed last in its parent; a file on the path raises, and so does a
  directory that the operating system does not create.\<close>

fun makedirs :: "(path \<Rightarrow> bool) \<Rightarrow> path \<Rightarrow> path \<Rightarrow> node \<Rightarrow> py_error + node" where
  "makedirs mk done [] t = Inr t"
| "makedirs mk done (x # rest) t =
     (case lookup t (done @ [x]) of
        None \<Rightarrow>
          if mk (done @ [x])
          then makedirs mk (done @ [x]) rest (modify_dir done (\<lambda>es. es @ [Dir x []]) t)
          else Inl OSError
      | Some (Dir n es) \<Rightarrow> makedirs mk (done @ [x]) rest t
      | Some (File n c) \<Rightarrow> Inl OSError)"

text \<open>\<open>shutil.move(src, dst)\<close>, \<open>None\<close> when it raises: into \<open>dst\<close> when that is a
  directory, else onto \<open>dst\<close>, replacing a file there; a move of an entry onto itself
  changes nothing.  It raises, and changes nothing, when the operating system does not
  move the entry to the path it would get.\<close>

definition is_prefix :: "path \<Rightarrow> path \<Rightarrow> bool" where
  "is_prefix p q = (take (length p) q = p)"

definition shutil_move :: "(path \<Rightarrow> path \<Rightarrow> bool) \<Rightarrow> path \<Rightarrow> path \<Rightarrow> node \<Rightarrow> node option" where
  "shutil_move mv src dst t =
     (case lookup t src of
        None \<Rightarrow> None
      | Some s \<Rightarrow>
         if src = [] \<or> dst = [] then None
         else if src = dst then Some t
         else
           let into = (case lookup t dst of Some (Dir n es) \<Rightarrow> True | _ \<Rightarrow> False);
               real_dst = (if into then dst @ [last src] else dst)
           in if into \<and> lookup t real_dst \<noteq> None then None
              else if is_prefix src real_dst then None
              else if \<not> mv src real_dst then None
              else (case lookup t (butlast real_dst) of
                      Some (Dir n es) \<Rightarrow>
                        if is_dir s \<and> lookup t real_dst \<noteq> None then None
                        else Some (modify_dir (butlast real_dst)
                                     (\<lambda>es. filter (\<lambda>e. node_name e \<noteq> last real_dst) es
                                              @ [rename_node (last real_dst) s])
                                     (remove_at src t))
                    | _ \<Rightarrow> None))"

text \<open>\<open>create_old_images_folder\<close>: \<open>os.makedirs\<close> without \<open>exist_ok\<close>, called only when
  nothing exists at the path.\<close>

definition create_old_images_folder ::
  "(path \<Rightarrow> bool) \<Rightarrow> path \<Rightarrow> path option \<Rightarrow> node \<Rightarrow> py_error + path \<times> node" where
  "create_old_images_folder mk target_folder category t =
     (let old_images_path = target_folder @ [''Old Images'']
            @ (case category of Some parts \<Rightarrow> parts | None \<Rightarrow> [])
      in if lookup t old_images_path = None
         then (case makedirs mk [] old_images_path t of
                 Inl e \<Rightarrow> Inl e | Inr t' \<Rightarrow> Inr (old_images_path, t'))
         else Inr (old_images_path, t))"

text \<open>\<open>handle_existing_file\<close>: the name \<open><base>_replaced_<timestamp><ext>\<close> and the move
  into the Old Images folder; a failing move is caught and changes nothing.\<close>

definition replaced_name :: "string \<Rightarrow> string \<Rightarrow> string" where
  "replaced_name filename timestamp =
     (let (base, ext) = splitext filename in base @ ''_replaced_'' @ timestamp @ ext)"

definition handle_existing_file ::
  "(path \<Rightarrow> path \<Rightarrow> bool) \<Rightarrow> string \<Rightarrow> path \<Rightarrow> path \<Rightarrow> node \<Rightarrow> node" where
  "handle_existing_file mv timestamp existing_file_path old_images_folder t =
     (let new_name = replaced_name (last existing_file_path) timestamp;
          old_file_path = old_images_folder @ [new_name]
      in case shutil_move mv existing_file_path old_file_path t of
           Some t' \<Rightarrow> t' | None \<Rightarrow> t)"

text \<open>The path of a file name found by \<open>os.walk\<close>: the first directory, in top-down
  order, that lists a regular file of that name.\<close>

fun first_some :: "'a option list \<Rightarrow> 'a option" where
  "first_some [] = None"
| "first_some (None # xs) = first_some xs"
| "first_some (Some x # xs) = Some x"

fun find_path :: "string \<Rightarrow> node \<Rightarrow> path option" where
  "find_path filename (File n c) = None"
| "find_path filename (Dir n es) =
     (if list_ex (\<lambda>e. \<not> is_dir e \<and> node_name e = filename) es then Some [filename]
      else first_some (map (\<lambda>e. map_option (\<lambda>p. node_name e # p) (find_path filename e)) es))"

text \<open>The file names that a top-down \<open>os.walk\<close> yields.\<close>

fun walk_files :: "node \<Rightarrow> string list" where
  "walk_files (File n c) = []"
| "walk_files (Dir n es) =
     map node_name (filter (\<lambda>e. \<not> is_dir e) es) @ concat (map (\<lambda>e. walk_files e) es)"

text \<open>The first pass of \<open>organize_webp_folder_only\<close>: the brand of a file name, and the
  file names of each brand (a \<open>defaultdict(list)\<close> in insertion order).\<close>

definition brand_of :: "string \<Rightarrow> string option" where
  "brand_of filename =
     (if CHR ''.'' \<notin> set filename then None
      else (let basename_no_ext = fst (splitext filename);
                (name, product_code, variant) = extract_name_code_variant basename_no_ext
            in if truthy name then name else None))"

fun dict_append :: "('k \<times> 'v list) list \<Rightarrow> 'k \<Rightarrow> 'v \<Rightarrow> ('k \<times> 'v list) list" where
  "dict_append [] key v = [(key, [v])]"
| "dict_append ((k, vs) # d) key v =
     (if k = key then (k, vs @ [v]) # d else (k, vs) # dict_append d key v)"

definition collect_brand_files :: "node \<Rightarrow> (string \<times> string list) list" where
  "collect_brand_files webp_folder =
     foldl (\<lambda>brand_files filename.
              case brand_of filename of
                Some name \<Rightarrow> dict_append brand_files name filename
              | None \<Rightarrow> brand_files)
       [] (walk_files webp_folder)"

text \<open>\<open>determine_final_product_codes\<close>: the final product code of each file of a brand.
  The set of the product codes is enumerated in the order of their first occurrence; the
  consolidated mapping does not depend on that order.\<close>

definition product_code_of :: "string \<Rightarrow> string option" where
  "product_code_of filename =
     (let basename = extract_basename filename;
          (name, product_code, variant) = extract_name_code_variant basename
      in if truthy product_code then product_code else None)"

definition determine_final_product_codes :: "string list \<Rightarrow> string \<Rightarrow> string option" where
  "determine_final_product_codes brand_files =
     (let all_product_codes = remdups (List.map_filter product_code_of brand_files);
          code_mapping = consolidate_product_codes all_product_codes
      in (\<lambda>filename.
            if filename \<in> set brand_files
            then (case product_code_of filename of
                    Some original_code \<Rightarrow>
                      (case code_mapping original_code of
                         Some final \<Rightarrow> Some final | None \<Rightarrow> Some original_code)
                  | None \<Rightarrow> None)
            else None))"

definition group_by_product_code :: "string list \<Rightarrow> (string option \<times> string list) list" where
  "group_by_product_code files =
     (let file_to_final_product_code = determine_final_product_codes files
      in foldl (\<lambda>groups filename. dict_append groups (file_to_final_product_code filename) filename)
           [] files)"

text \<open>\<open>os.path.join\<close> below the root, with \<open>.\<close> and \<open>..\<close> resolved; \<open>None\<close> when the
  path leaves the root.\<close>

fun resolve :: "path \<Rightarrow> path \<Rightarrow> path option" where
  "resolve acc [] = Some acc"
| "resolve acc (x # xs) =
     (if x = ''.'' then resolve acc xs
      else if x = ''..'' then (if acc = [] then None else resolve (butlast acc) xs)
      else resolve (acc @ [x]) xs)"

text \<open>A run: the tree and the number of timestamps taken from the clock.\<close>

type_synonym run = "node \<times> nat"

fun fold_err :: "('a \<Rightarrow> 's \<Rightarrow> py_error + 's) \<Rightarrow> 'a list \<Rightarrow> 's \<Rightarrow> py_error + 's" where
  "fold_err f [] s = Inr s"
| "fold_err f (x # xs) s = (case f x s of Inl e \<Rightarrow> Inl e | Inr s' \<Rightarrow> fold_err f xs s')"

text \<open>The collision resolver inside the innermost loop: a variant found by the
  duplicate test, or else whatever stands at the destination path, is moved into the
  Old Images folder of the target folder.\<close>

definition category_parts :: "path option \<Rightarrow> path" where
  "category_parts file_category = (case file_category of Some parts \<Rightarrow> parts | None \<Rightarrow> [])"

definition quarantine ::
  "(path \<Rightarrow> bool) \<Rightarrow> (path \<Rightarrow> path \<Rightarrow> bool) \<Rightarrow> string \<Rightarrow> path \<Rightarrow> path option \<Rightarrow> path \<Rightarrow> node
     \<Rightarrow> py_error + node" where
  "quarantine mk mv timestamp target_folder file_category existing_file_path t =
     (case create_old_images_folder mk target_folder file_category t of
        Inl e \<Rightarrow> Inl e
      | Inr (old_images_folder, t') \<Rightarrow>
          Inr (handle_existing_file mv timestamp existing_file_path old_images_folder t'))"

definition resolve_collision ::
  "(nat \<Rightarrow> string) \<Rightarrow> (path \<Rightarrow> bool) \<Rightarrow> (path \<Rightarrow> path \<Rightarrow> bool) \<Rightarrow> path \<Rightarrow> path option \<Rightarrow> string \<Rightarrow> run
     \<Rightarrow> py_error + run" where
  "resolve_collision clock mk mv target_folder file_category filename r =
     (let (t, k) = r;
          final_destination_folder = target_folder @ category_parts file_category;
          final_destination = final_destination_folder @ [filename]
      in case find_existing_file_variant t final_destination_folder filename of
           Some existing_file_path \<Rightarrow>
             (case quarantine mk mv (clock k) target_folder file_category existing_file_path t of
                Inl e \<Rightarrow> Inl e | Inr t' \<Rightarrow> Inr (t', k + 1))
         | None \<Rightarrow>
             if lookup t final_destination \<noteq> None
             then (case quarantine mk mv (clock k) target_folder file_category final_destination t of
                     Inl e \<Rightarrow> Inl e | Inr t' \<Rightarrow> Inr (t', k + 1))
             else Inr (t, k))"

text \<open>The body of the innermost loop: one file name of a product code group.\<close>

definition place_file ::
  "(nat \<Rightarrow> string) \<Rightarrow> (path \<Rightarrow> bool) \<Rightarrow> (path \<Rightarrow> path \<Rightarrow> bool) \<Rightarrow> path \<Rightarrow> string \<Rightarrow> run
     \<Rightarrow> py_error + run" where
  "place_file clock mk mv target_folder filename r =
     (let (t, k) = r in
      case find_path filename t of
        None \<Rightarrow> Inr (t, k)
      | Some file_path \<Rightarrow>
         (let file_category = get_file_category filename;
              final_destination = target_folder @ category_parts file_category @ [filename]
          in case makedirs mk target_folder (category_parts file_category) t of
               Inl e \<Rightarrow> Inl e
             | Inr t1 \<Rightarrow>
                (case resolve_collision clock mk mv target_folder file_category filename (t1, k) of
                   Inl e \<Rightarrow> Inl e
                 | Inr (t3, k') \<Rightarrow>
                     if file_path \<noteq> final_destination
                     then (case shutil_move mv file_path final_destination t3 of
                             Some t4 \<Rightarrow> Inr (t4, k') | None \<Rightarrow> Inr (t3, k'))
                     else Inr (t3, k'))))"

text \<open>One product code group of a brand, one brand, and the whole second pass.\<close>

definition organize_group ::
  "(nat \<Rightarrow> string) \<Rightarrow> (path \<Rightarrow> bool) \<Rightarrow> (path \<Rightarrow> path \<Rightarrow> bool) \<Rightarrow> string
     \<Rightarrow> string option \<times> string list \<Rightarrow> run \<Rightarrow> py_error + run" where
  "organize_group clock mk mv brand_name g r =
     (let (product_code, files_in_product) = g; (t, k) = r in
      case resolve [] [brand_name] of
        None \<Rightarrow> Inl OutsideTree
      | Some brand_folder_path \<Rightarrow>
         (case makedirs mk [] brand_folder_path t of
            Inl e \<Rightarrow> Inl e
          | Inr t1 \<Rightarrow>
             (if truthy product_code
              then (case resolve [] [brand_name, the product_code] of
                      None \<Rightarrow> Inl OutsideTree
                    | Some product_folder_path \<Rightarrow>
                       (case makedirs mk [] product_folder_path t1 of
                          Inl e \<Rightarrow> Inl e
                        | Inr t2 \<Rightarrow>
                            fold_err (place_file clock mk mv product_folder_path) files_in_product (t2, k)))
              else fold_err (place_file clock mk mv brand_folder_path) files_in_product (t1, k))))"

definition organize_brand ::
  "(nat \<Rightarrow> string) \<Rightarrow> (path \<Rightarrow> bool) \<Rightarrow> (path \<Rightarrow> path \<Rightarrow> bool) \<Rightarrow> string \<times> string list \<Rightarrow> run
     \<Rightarrow> py_error + run" where
  "organize_brand clock mk mv b r =
     (let (brand_name, files) = b
      in fold_err (organize_group clock mk mv brand_name) (group_by_product_code files) r)"

definition organize_webp_folder_only ::
  "(nat \<Rightarrow> string) \<Rightarrow> (path \<Rightarrow> bool) \<Rightarrow> (path \<Rightarrow> path \<Rightarrow> bool) \<Rightarrow> run \<Rightarrow> py_error + run" where
  "organize_webp_folder_only clock mk mv r =
     fold_err (organize_brand clock mk mv) (collect_brand_files (fst r)) r"

text \<open>\<open>organize_webp_files\<close>: \<open>None\<close> is a folder that does not exist.  The result is the
  tree after the run and the value returned.\<close>

definition organize_webp_files ::
  "(nat \<Rightarrow> string) \<Rightarrow> (path \<Rightarrow> bool) \<Rightarrow> (path \<Rightarrow> path \<Rightarrow> bool) \<Rightarrow> (path \<Rightarrow> bool) \<Rightarrow> node option
     \<Rightarrow> py_error + (node option \<times> bool)" where
  "organize_webp_files clock mk mv rm webp_folder =
     (case webp_folder of
        None \<Rightarrow> Inr (None, False)
      | Some t \<Rightarrow>
         (case organize_webp_folder_only clock mk mv (t, 0) of
            Inl e \<Rightarrow> Inl e
          | Inr (t', k) \<Rightarrow> Inr (Some (clean_up_empty_product_folders rm t'), True)))"

text \<open>The paths of the directories without any entry, below the root.\<close>

fun empty_dir_paths :: "node \<Rightarrow> path list" where
  "empty_dir_paths (File n c) = []"
| "empty_dir_paths (Dir n es) =
     concat (map (\<lambda>e. (if is_dir e \<and> entries e = [] then [[node_name e]] else [])
                        @ map (\<lambda>p. node_name e # p) (empty_dir_paths e)) es)"
section \<open>Conflict resolution of the splitter (split.py)\<close>

text \<open>
  Paths as \<open>pathlib\<close> reads them: the name is the last component, the suffix starts at
  the last dot of the name unless that dot is its first or its last character, and the
  stem is the name without the suffix.
\<close>

definition path_name :: "path \<Rightarrow> string" where
  "path_name p = (if p = [] then [] else last p)"

definition path_parent :: "path \<Rightarrow> path" where
  "path_parent p = butlast p"

definition rfind :: "char \<Rightarrow> string \<Rightarrow> nat option" where
  "rfind c s = (case filter (\<lambda>i. s ! i = c) (rev [0..<length s]) of [] \<Rightarrow> None | i # _ \<Rightarrow> Some i)"

definition path_suffix :: "string \<Rightarrow> string" where
  "path_suffix name =
     (case rfind CHR ''.'' name of
        Some i \<Rightarrow> if 0 < i \<and> i < length name - 1 then drop i name else []
      | None \<Rightarrow> [])"

definition path_stem :: "string \<Rightarrow> string" where
  "path_stem name =
     (case rfind CHR ''.'' name of
        Some i \<Rightarrow> if 0 < i \<and> i < length name - 1 then take i name else name
      | None \<Rightarrow> name)"

text \<open>\<open>re.sub(r'_v\d+$', '', s)\<close>: the match is cut out, a final line feed stays.\<close>

definition sub_version :: "string \<Rightarrow> string" where
  "sub_version s =
     (case search_version s of
        Some (p, m) \<Rightarrow> p @ drop (length p + length m) s
      | None \<Rightarrow> s)"

definition get_versioned_filename :: "path \<Rightarrow> nat \<Rightarrow> path" where
  "get_versioned_filename file_path version =
     (let stem = sub_version (path_stem (path_name file_path))
      in path_parent file_path
           @ [stem @ ''_v'' @ str_nat version @ path_suffix (path_name file_path)])"

text \<open>\<open>get_file_timestamp\<close>: the modification time, \<open>0\<close> when \<open>os.path.getmtime\<close> raises.
  The times are those of an ordered type with a zero.\<close>

definition get_file_timestamp :: "(path \<Rightarrow> 'a option) \<Rightarrow> path \<Rightarrow> 'a::{linorder,zero}" where
  "get_file_timestamp mtime file_path = (case mtime file_path of Some ts \<Rightarrow> ts | None \<Rightarrow> 0)"

text \<open>\<open>directory.glob(f"{base_name}*{extension}")\<close> for a base name and an extension
  without metacharacters: the entries of the directory, files and directories alike, whose
  name starts with the base name and goes on with a text that ends with the extension.\<close>

definition has_magic :: "string \<Rightarrow> bool" where
  "has_magic pat = (\<exists>c \<in> set pat. c \<in> set ''*?['')"

definition glob_match :: "string \<Rightarrow> string \<Rightarrow> string \<Rightarrow> bool" where
  "glob_match base_name extension n =
     (length base_name + length extension \<le> length n
      \<and> take (length base_name) n = base_name
      \<and> drop (length n - length extension) n = extension)"

definition glob :: "node \<Rightarrow> path \<Rightarrow> string \<Rightarrow> string \<Rightarrow> path list" where
  "glob t directory base_name extension =
     map (\<lambda>e. directory @ [node_name e])
       (filter (\<lambda>e. glob_match base_name extension (node_name e))
          (case lookup t directory of Some d \<Rightarrow> entries d | None \<Rightarrow> []))"

text \<open>The list \<open>conflicting_files\<close> of \<open>resolve_conflict\<close> after its sort, which is stable:
  the matches of the glob other than the source, then the source, by time.\<close>

definition conflicting_files ::
  "(path \<Rightarrow> 'a option) \<Rightarrow> path \<Rightarrow> path \<Rightarrow> node \<Rightarrow> ('a::{linorder,zero} \<times> path) list" where
  "conflicting_files mtime source_file dest_file t =
     (let base_name = sub_version (path_stem (path_name dest_file));
          extension = path_suffix (path_name dest_file);
          directory = path_parent dest_file
      in sort_key fst
           (map (\<lambda>f. (get_file_timestamp mtime f, f))
              (filter (\<lambda>f. f \<noteq> source_file) (glob t directory base_name extension))
            @ [(get_file_timestamp mtime source_file, source_file)]))"

text \<open>The body of the renaming loop: the file, if it still exists, is moved into the webp
  folder under its versioned name; a failing move is not caught.\<close>

definition new_path :: "path \<Rightarrow> path \<Rightarrow> nat \<Rightarrow> path" where
  "new_path webp_folder file_path version =
     webp_folder @ [path_name (get_versioned_filename file_path version)]"

definition version_file ::
  "(path \<Rightarrow> path \<Rightarrow> bool) \<Rightarrow> path \<Rightarrow> nat \<times> 'a \<times> path \<Rightarrow> node \<Rightarrow> py_error + node" where
  "version_file mv webp_folder x t =
     (let (version, ts, file_path) = x
      in if lookup t file_path \<noteq> None
         then (case shutil_move mv file_path (new_path webp_folder file_path version) t of
                 Some t' \<Rightarrow> Inr t' | None \<Rightarrow> Inl OSError)
         else Inr t)"

definition resolve_conflict ::
  "(path \<Rightarrow> path \<Rightarrow> bool) \<Rightarrow> (path \<Rightarrow> 'a::{linorder,zero} option) \<Rightarrow> path \<Rightarrow> path \<Rightarrow> path \<Rightarrow> node
     \<Rightarrow> py_error + path \<times> node" where
  "resolve_conflict mv mtime source_file dest_file webp_folder t =
     (let base_name = sub_version (path_stem (path_name dest_file));
          extension = path_suffix (path_name dest_file);
          files = conflicting_files mtime source_file dest_file t
      in if has_magic (base_name @ extension) then Inl Metacharacter
         else case fold_err (version_file mv webp_folder) (enumerate 1 files) t of
                Inl e \<Rightarrow> Inl e
              | Inr t' \<Rightarrow> Inr (new_path webp_folder source_file (length files), t'))"

text \<open>\<open>move_file_safely\<close>: the plain move when nothing is at the destination, else the
  conflict resolution.\<close>

definition move_file_safely ::
  "(path \<Rightarrow> bool) \<Rightarrow> (path \<Rightarrow> path \<Rightarrow> bool) \<Rightarrow> (path \<Rightarrow> 'a::{linorder,zero} option) \<Rightarrow> path \<Rightarrow> path \<Rightarrow> path
     \<Rightarrow> node \<Rightarrow> py_error + path \<times> node" where
  "move_file_safely mk mv mtime source_file dest_file webp_folder t =
     (case makedirs mk [] (path_parent dest_file) t of
        Inl e \<Rightarrow> Inl e
      | Inr t1 \<Rightarrow>
          if lookup t1 dest_file = None
          then (case shutil_move mv source_file dest_file t1 of
                  Some t2 \<Rightarrow> Inr (dest_file, t2) | None \<Rightarrow> Inl OSError)
          else resolve_conflict mv mtime source_file dest_file webp_folder t1)"


section \<open>Properties of the extractor\<close>


lemma alpha_not_sep: "is_alpha c \<Longrightarrow> \<not> is_sep c"
  by (auto simp: is_alpha_def is_upper_def is_lower_def is_sep_def is_space_def py_ord_def)

lemma alpha_not_space: "is_alpha c \<Longrightarrow> \<not> is_space c"
  by (auto simp: is_alpha_def is_upper_def is_lower_def is_space_def)

lemma space_is_sep: "is_space c \<Longrightarrow> is_sep c"
  by (simp add: is_sep_def)

lemma split_seps_nonempty: "split_seps s \<noteq> []"
  by (induction s) (auto split: list.splits)

lemma split_seps_no_sep: "w \<in> set (split_seps s) \<Longrightarrow> c \<in> set w \<Longrightarrow> \<not> is_sep c"
proof (induction s arbitrary: w)
  case Nil
  then show ?case by simp
next
  case (Cons a s)
  show ?case
  proof (cases "is_sep a")
    case True
    with Cons show ?thesis by auto
  next
    case False
    obtain v vs where vs: "split_seps s = v # vs"
      using split_seps_nonempty [of s] by (cases "split_seps s") auto
    with False Cons.prems have "w = a # v \<or> w \<in> set vs" by auto
    then show ?thesis
    proof
      assume "w = a # v"
      with Cons.prems(2) have "c = a \<or> c \<in> set v" by auto
      then show ?thesis using False Cons.IH [of v] vs by auto
    next
      assume "w \<in> set vs"
      then show ?thesis using Cons.IH [of w] Cons.prems(2) vs by auto
    qed
  qed
qed

lemma tokens_good: "t \<in> set (tokens s) \<Longrightarrow> t \<noteq> [] \<and> (\<forall>c \<in> set t. \<not> is_sep c)"
  by (auto simp: tokens_def dest: split_seps_no_sep)

lemma strip_nonempty: "c \<in> set s \<Longrightarrow> \<not> is_space c \<Longrightarrow> strip s \<noteq> []"
proof -
  assume c: "c \<in> set s" and n: "\<not> is_space c"
  have keep: "\<And>xs. c \<in> set xs \<Longrightarrow> c \<in> set (dropWhile is_space xs)"
  proof -
    fix xs show "c \<in> set xs \<Longrightarrow> c \<in> set (dropWhile is_space xs)"
      using n by (induction xs) auto
  qed
  have "c \<in> set (rev (dropWhile is_space (rev s)))" using keep [of "rev s"] c by simp
  then have "c \<in> set (strip s)" unfolding strip_def by (rule keep)
  then show ?thesis by auto
qed

lemma join_hd_subset: "xs \<noteq> [] \<Longrightarrow> set (hd xs) \<subseteq> set (join sep xs)"
  by (induction sep xs rule: join.induct) auto


lemma pop_variant_props:
  assumes "pop_variant parts = (v, ps)" and "parts \<noteq> []"
  shows "ps \<noteq> [] \<and> set ps \<subseteq> set parts \<and> (\<forall>x. v = Some x \<longrightarrow> is_variant_code x)"
proof (cases "length parts > 1 \<and> is_variant_code (last parts)")
  case True
  then have "v = Some (last parts)" "ps = butlast parts"
    using assms(1) by (auto simp: pop_variant_def)
  moreover have "butlast parts \<noteq> []"
    using True by (cases parts rule: rev_cases) auto
  moreover have "set (butlast parts) \<subseteq> set parts"
    by (auto dest: in_set_butlastD)
  ultimately show ?thesis using True by simp
next
  case False
  then have "v = None" "ps = parts"
    using assms(1) by (auto simp: pop_variant_def)
  then show ?thesis using assms(2) by simp
qed

lemma brand_model_match_brand:
  "brand_model_match s = Some (b, m) \<Longrightarrow> b \<noteq> [] \<and> (\<forall>c \<in> set b. \<not> is_space c)"
  by (auto simp: brand_model_match_def Let_def split: if_splits
      dest!: set_takeWhileD alpha_not_space)

lemma good_parts_take: "good_parts ps \<Longrightarrow> good_parts (take n ps)"
  by (auto simp: good_parts_def dest: in_set_takeD)

lemma good_parts_Cons:
  "good_parts (t # ts) = (t \<noteq> [] \<and> (\<forall>c \<in> set t. \<not> is_space c) \<and> good_parts ts)"
  by (auto simp: good_parts_def)

lemma good_parts_Nil: "good_parts []"
  by (simp add: good_parts_def)

lemma split_name_code_props:
  assumes "split_name_code ps = (np, cp)" and "ps \<noteq> []" and "good_parts ps"
  shows "np \<noteq> [] \<and> good_parts np"
proof (cases "first_index has_dotted_version ps")
  case (Some i)
  show ?thesis
  proof (cases "i = 0")
    case True
    with Some assms have "np = take 1 ps" by (simp add: split_name_code_def)
    with assms show ?thesis by (cases ps) (auto simp: good_parts_def)
  next
    case False
    with Some assms have "np = take i ps" by (simp add: split_name_code_def)
    with assms False show ?thesis by (cases ps) (auto intro: good_parts_take)
  qed
next
  case None
  show ?thesis
  proof (cases ps)
    case Nil
    with assms show ?thesis by simp
  next
    case (Cons p1 r1)
    show ?thesis
    proof (cases r1)
      case Nil
      with Cons None assms show ?thesis
        by (auto simp: split_name_code_def good_parts_def split: option.splits
            dest: brand_model_match_brand)
    next
      case c2: (Cons p2 r2)
      show ?thesis
      proof (cases r2)
        case Nil
        with c2 Cons None assms show ?thesis
          by (auto simp: split_name_code_def good_parts_def split: option.splits if_splits
              dest: brand_model_match_brand)
      next
        case c3: (Cons p3 r3)
        show ?thesis
          using c3 c2 Cons None assms
          by (auto simp: split_name_code_def Let_def good_parts_Cons good_parts_Nil good_parts_take
              split: option.splits if_splits)
      qed
    qed
  qed
qed

lemma name_truthy:
  assumes "np \<noteq> []" and "good_parts np"
  shows "strip (join sep np) \<noteq> []"
proof -
  from assms obtain c where "c \<in> set (hd np)" "\<not> is_space c"
    by (cases np; cases "hd np") (auto simp: good_parts_def)
  with join_hd_subset [OF assms(1), of sep] have "c \<in> set (join sep np)" by blast
  then show ?thesis using \<open>\<not> is_space c\<close> by (rule strip_nonempty)
qed


lemma tokens_good_parts: "good_parts (tokens s)"
  using tokens_good [of _ s] by (auto simp: good_parts_def dest: space_is_sep)

lemma special_case_None_cases:
  "special_case parts = Some (b, c) \<Longrightarrow> b \<in> set parts \<and> all_alpha b"
  by (auto simp: special_case_def split: list.splits if_splits)

lemma is_variant_code_single: "is_variant_code x \<Longrightarrow> \<exists>c. x = [c] \<and> is_alnum c"
  by (cases x; cases "tl x") (auto simp: is_variant_code_def)

text \<open>
  Claim C4 (as amended).  For every stem that yields at least one token once the
  version marker is stripped, the stem is cleaned and split on separators, the
  extractor returns a brand name that is neither \<open>None\<close> nor empty (so at least one of
  brand and product code is non-null); and for every stem, a returned variant is
  exactly one character of \<open>[A-Za-z0-9]\<close>.
\<close>

theorem extract_identity_invariant:
  assumes "tokens (fst (strip_version stem)) \<noteq> []"
  shows "case extract_name_code_variant stem of
           (name, code, variant) \<Rightarrow>
             (name \<noteq> None \<or> code \<noteq> None) \<and> truthy name
             \<and> (\<forall>v. variant = Some v \<longrightarrow> (\<exists>c. v = [c] \<and> is_alnum c))"
proof -
  define basename where "basename = fst (strip_version stem)"
  define parts where "parts = tokens basename"
  have ne: "parts \<noteq> []" and good: "good_parts parts"
    using assms tokens_good_parts by (auto simp: parts_def basename_def)
  show ?thesis
  proof (cases "special_case parts")
    case (Some bc)
    obtain b c where bc: "bc = (b, c)" by (cases bc)
    with Some have "b \<in> set parts" using special_case_None_cases by blast
    with good have "b \<noteq> []" by (auto simp: good_parts_def)
    with Some bc ne show ?thesis
      by (simp add: extract_name_code_variant_def Let_def truthy_def
          flip: basename_def parts_def)
  next
    case None
    obtain v ps where pv: "pop_variant parts = (v, ps)" by (cases "pop_variant parts")
    obtain np cp where sp: "split_name_code ps = (np, cp)" by (cases "split_name_code ps")
    from pop_variant_props [OF pv ne]
    have ps: "ps \<noteq> []" "set ps \<subseteq> set parts" and var: "\<forall>x. v = Some x \<longrightarrow> is_variant_code x"
      by auto
    from ps good have "good_parts ps" by (auto simp: good_parts_def)
    with split_name_code_props [OF sp ps(1)] have np: "np \<noteq> []" "good_parts np" by auto
    have nm: "strip (join '' '' np) \<noteq> []" using name_truthy [OF np] .
    have vv: "\<forall>x. v = Some x \<longrightarrow> (\<exists>c. x = [c] \<and> is_alnum c)"
      using var is_variant_code_single by blast
    show ?thesis
      using None ne pv sp np(1) nm vv
      by (simp add: extract_name_code_variant_def Let_def truthy_def
          flip: basename_def parts_def)
  qed
qed

theorem extract_identity_invariant_witness:
  "tokens (fst (strip_version ''Widget-A100-B'')) \<noteq> []
   \<and> extract_name_code_variant ''Widget-A100-B'' = (Some ''Widget'', Some ''A100'', Some ''B'')"
proof -
  have t: "tokens (fst (strip_version ''Widget-A100-B'')) \<noteq> []" by code_simp
  have e: "extract_name_code_variant ''Widget-A100-B'' = (Some ''Widget'', Some ''A100'', Some ''B'')"
    by code_simp
  from extract_identity_invariant [OF t] e t show ?thesis by simp
qed

text \<open>The non-empty stem \<open>-\<close> has no token: the extractor returns \<open>None\<close> three times.\<close>

theorem extract_no_tokens_counterexample:
  "''-'' \<noteq> [] \<and> extract_name_code_variant ''-'' = (None, None, None)"
  by code_simp


lemma token_char_not_sep: "token_char c \<Longrightarrow> \<not> is_sep c"
  by (auto simp: token_char_def is_word_def is_sep_def is_space_def is_digit_def is_alpha_def
      is_upper_def is_lower_def py_ord_def)

lemma token_char_clean: "token_char c \<Longrightarrow> is_word c \<or> c = CHR ''.''"
  by (auto simp: token_char_def)

lemma alpha_token_char: "is_alpha c \<Longrightarrow> token_char c"
  by (auto simp: token_char_def is_word_def is_alpha_def is_upper_def is_lower_def py_ord_def)

lemma alpha_not_digit: "is_alpha c \<Longrightarrow> \<not> is_digit c"
  by (auto simp: is_alpha_def is_upper_def is_lower_def is_digit_def)

lemma search_version_None: "CHR ''_'' \<notin> set s \<Longrightarrow> search_version s = None"
  by (induction s) (auto simp: version_here_def split: list.splits)

lemma split_seps_single: "\<forall>c \<in> set s. \<not> is_sep c \<Longrightarrow> split_seps s = [s]"
  by (induction s) auto

lemma split_seps_append:
  "\<forall>c \<in> set a. \<not> is_sep c \<Longrightarrow> is_sep x \<Longrightarrow> split_seps (a @ x # b) = a # split_seps b"
  by (induction a) auto

lemma has_dotted_version_digit: "has_dotted_version s \<Longrightarrow> has_digit s"
  by (induction s rule: has_dotted_version.induct) (auto simp: has_digit_def)

lemma all_alpha_no_digit: "all_alpha s \<Longrightarrow> \<not> has_digit s"
  by (auto simp: all_alpha_def has_digit_def list_all_iff list_ex_iff dest: alpha_not_digit)

lemma all_alpha_no_match: "all_alpha s \<Longrightarrow> brand_model_match s = None"
proof -
  assume "all_alpha s"
  then have "dropWhile is_alpha s = []" by (simp add: all_alpha_def list_all_iff)
  then show ?thesis by (simp add: brand_model_match_def Let_def)
qed

lemma strip_id: "s \<noteq> [] \<Longrightarrow> \<forall>c \<in> set s. \<not> is_space c \<Longrightarrow> strip s = s"
proof -
  assume ne: "s \<noteq> []" and ns: "\<forall>c \<in> set s. \<not> is_space c"
  have dw: "\<And>xs. xs \<noteq> [] \<Longrightarrow> \<forall>c \<in> set xs. \<not> is_space c \<Longrightarrow> dropWhile is_space xs = xs"
    by (case_tac xs) auto
  have "dropWhile is_space (rev s) = rev s" using ne ns by (intro dw) auto
  then show ?thesis using ne ns by (simp add: strip_def dw)
qed

text \<open>
  Claim C3 (as amended).  For a brand of letters \<open>[a-zA-Z]+\<close> and a product code that
  is one token of at least two characters (word characters other than the underscore,
  or dots) with at least one digit, the stem \<open>brand-code\<close> is parsed into that brand,
  that code and no variant.
\<close>

theorem extract_brand_code:
  assumes brand: "all_alpha brand"
    and code_len: "2 \<le> length code"
    and code_chars: "\<forall>c \<in> set code. token_char c"
    and code_digit: "has_digit code"
  shows "extract_name_code_variant (brand @ ''-'' @ code) = (Some brand, Some code, None)"
proof -
  let ?s = "brand @ ''-'' @ code"
  have bchars: "\<forall>c \<in> set brand. token_char c" and bne: "brand \<noteq> []"
    using brand by (auto simp: all_alpha_def list_all_iff intro: alpha_token_char)
  have cne: "code \<noteq> []" using code_len by auto
  have "CHR ''_'' \<notin> set ?s"
    using bchars code_chars by (auto simp: token_char_def is_word_def is_digit_def is_alpha_def
        is_upper_def is_lower_def py_ord_def)
  then have sv: "strip_version ?s = (?s, [])"
    by (simp add: strip_version_def search_version_None)
  have cl: "clean ?s = ?s"
    using bchars code_chars unfolding clean_def
    by (intro filter_True) (auto dest: token_char_clean)
  have bs: "\<forall>c \<in> set brand. \<not> is_sep c" and cs: "\<forall>c \<in> set code. \<not> is_sep c"
    using bchars code_chars token_char_not_sep by blast+
  have hy: "is_sep CHR ''-''" by (simp add: is_sep_def)
  have sp: "split_seps ?s = [brand, code]"
    using split_seps_append [OF bs hy, of code] split_seps_single [OF cs] by simp
  have tk: "tokens ?s = [brand, code]"
    using cl sp bne cne by (simp add: tokens_def)
  have spc: "special_case [brand, code] = None" by (simp add: special_case_def)
  have nv: "\<not> is_variant_code code"
    using code_len by (cases code; cases "tl code") (auto simp: is_variant_code_def)
  have pv: "pop_variant [brand, code] = (None, [brand, code])"
    using nv by (simp add: pop_variant_def)
  have nb: "\<not> has_dotted_version brand"
    using brand all_alpha_no_digit has_dotted_version_digit by blast
  have snc: "split_name_code [brand, code] = ([brand], [code])"
    using nb brand code_digit
    by (simp add: split_name_code_def all_alpha_no_match)
  have st: "strip brand = brand"
    using bne bs space_is_sep by (intro strip_id) blast+
  show ?thesis
    using sv tk spc pv snc st bne
    by (simp add: extract_name_code_variant_def Let_def assemble_code_def truthy_def)
qed

theorem extract_brand_code_witness:
  "all_alpha ''Widget'' \<and> 2 \<le> length ''A100'' \<and> list_all token_char ''A100''
   \<and> has_digit ''A100''
   \<and> extract_name_code_variant (''Widget'' @ ''-'' @ ''A100'') = (Some ''Widget'', Some ''A100'', None)"
proof -
  have a: "all_alpha ''Widget''" by code_simp
  have b: "2 \<le> length ''A100''" by simp
  have c: "list_all token_char ''A100''" by code_simp
  then have c': "\<forall>c \<in> set ''A100''. token_char c" unfolding list_all_iff .
  have d: "has_digit ''A100''" by code_simp
  from extract_brand_code [OF a b c' d] a b c d show ?thesis by simp
qed

text \<open>A product code of a single digit is taken as the variant, and no code is returned.\<close>

theorem extract_single_digit_code_counterexample:
  "all_alpha ''Widget'' \<and> has_digit ''1''
   \<and> extract_name_code_variant (''Widget'' @ ''-'' @ ''1'') = (Some ''Widget'', None, Some ''1'')"
  by code_simp

text \<open>
  Claim C9.  The stem \<open>Uniserve-UNIO22-4\<close> is parsed into the brand \<open>Uniserve\<close>, the
  product code \<open>UNIO22-4\<close> and no variant.
\<close>

theorem extract_uniserve:
  "extract_name_code_variant ''Uniserve-UNIO22-4'' = (Some ''Uniserve'', Some ''UNIO22-4'', None)"
  by code_simp


section \<open>Properties of the normalizer\<close>

lemma after_last_append:
  "after_last c (a @ b) = (if c \<in> set b then after_last c b else after_last c a @ b)"
  by (auto simp: after_last_def takeWhile_append)

lemma after_last_notin: "c \<notin> set (after_last c s)"
  by (auto simp: after_last_def dest: set_takeWhileD)

lemma after_last_subset: "set (after_last c s) \<subseteq> set s"
  by (auto simp: after_last_def dest: set_takeWhileD)

lemma after_last_id: "c \<notin> set s \<Longrightarrow> after_last c s = s"
  unfolding after_last_def by (subst takeWhile_eq_all_conv [THEN iffD2]) auto

lemma after_last_Cons: "c \<notin> set b \<Longrightarrow> after_last c (a @ c # b) = b"
  using after_last_id [of c b] by (simp add: after_last_def takeWhile_append)

lemma after_last_split: "c \<in> set s \<Longrightarrow> \<exists>a. s = a @ c # after_last c s"
proof -
  assume "c \<in> set s"
  let ?P = "\<lambda>x. x \<noteq> c"
  from \<open>c \<in> set s\<close> have ne: "dropWhile ?P (rev s) \<noteq> []" by (simp add: dropWhile_eq_Nil_conv)
  then obtain h r where hr: "dropWhile ?P (rev s) = h # r" by (cases "dropWhile ?P (rev s)") auto
  from hd_dropWhile [OF ne] hr have "h = c" by simp
  have "rev s = takeWhile ?P (rev s) @ dropWhile ?P (rev s)" by simp
  then have "rev s = takeWhile ?P (rev s) @ c # r" using hr \<open>h = c\<close> by simp
  then have "rev (rev s) = rev (takeWhile ?P (rev s) @ c # r)" by simp
  then have "s = rev r @ c # after_last c s" by (simp add: after_last_def)
  then show ?thesis by blast
qed

lemma after_last_suffix: "\<exists>d. s = d @ after_last c s"
proof (cases "c \<in> set s")
  case True
  from after_last_split [OF True] obtain a where "s = a @ c # after_last c s" by blast
  then have "s = (a @ [c]) @ after_last c s" by simp
  then show ?thesis by blast
next
  case False
  then show ?thesis by (simp add: after_last_id)
qed

text \<open>The two outcomes of \<open>splitext\<close>, on the decomposition of the path.\<close>

lemma splitext_struct:
  assumes "p = d @ after_last CHR ''/'' p"
  shows "(CHR ''.'' \<notin> set (after_last CHR ''/'' p) \<and> splitext p = (p, []))
       \<or> (\<exists>st x. after_last CHR ''/'' p = st @ CHR ''.'' # x \<and> CHR ''.'' \<notin> set x
             \<and> CHR ''/'' \<notin> set x \<and> CHR ''/'' \<notin> set st
             \<and> splitext p = (if \<exists>c \<in> set st. c \<noteq> CHR ''.'' then (d @ st, CHR ''.'' # x) else (p, [])))"
proof (cases "CHR ''.'' \<in> set (after_last CHR ''/'' p)")
  case False
  then show ?thesis by (simp add: splitext_def Let_def)
next
  case True
  define base where "base = after_last CHR ''/'' p"
  define x where "x = after_last CHR ''.'' base"
  from after_last_split [OF True] obtain st where st: "base = st @ CHR ''.'' # x"
    by (auto simp: base_def x_def)
  have nx: "CHR ''.'' \<notin> set x" by (simp add: x_def after_last_notin)
  have nb: "CHR ''/'' \<notin> set base" by (simp add: base_def after_last_notin)
  with st have ns: "CHR ''/'' \<notin> set x" "CHR ''/'' \<notin> set st" by auto
  have p: "p = d @ st @ CHR ''.'' # x" using assms st by (simp add: base_def)
  have t1: "take (length base - length x - 1) base = st" using st by simp
  have t2: "take (length p - length x - 1) p = d @ st" using p by simp
  have "splitext p = (if \<exists>c \<in> set st. c \<noteq> CHR ''.'' then (d @ st, CHR ''.'' # x) else (p, []))"
    using True t1 t2 unfolding splitext_def Let_def base_def [symmetric] x_def [symmetric]
    by simp
  then show ?thesis using st nx ns unfolding base_def by blast
qed

lemma splitext_concat: "splitext p = (s, e) \<Longrightarrow> p = s @ e"
proof -
  assume a: "splitext p = (s, e)"
  obtain d where d: "p = d @ after_last CHR ''/'' p" using after_last_suffix by blast
  from splitext_struct [OF d] a d show ?thesis
    by (auto split: if_splits)
qed

lemma splitext_ext:
  "splitext p = (s, e) \<Longrightarrow>
     e = [] \<or> (\<exists>x. e = CHR ''.'' # x \<and> CHR ''.'' \<notin> set x \<and> CHR ''/'' \<notin> set x)"
proof -
  assume a: "splitext p = (s, e)"
  obtain d where d: "p = d @ after_last CHR ''/'' p" using after_last_suffix by blast
  from splitext_struct [OF d] a show ?thesis by (auto split: if_splits)
qed



lemma splitext_swap_tail:
  assumes sp: "splitext (a @ t @ e) = (a @ t, e)"
    and t: "t \<noteq> []" "CHR ''/'' \<notin> set t" "CHR ''.'' \<notin> set t"
    and t': "t' \<noteq> []" "CHR ''/'' \<notin> set t'" "CHR ''.'' \<notin> set t'"
  shows "splitext (a @ t' @ e) = (a @ t', e)"
proof -
  define ba where "ba = after_last CHR ''/'' a"
  obtain da where da: "a = da @ ba" unfolding ba_def using after_last_suffix by blast
  have nba: "CHR ''/'' \<notin> set ba" by (simp add: ba_def after_last_notin)
  from splitext_ext [OF sp] consider "e = []"
    | x where "e = CHR ''.'' # x" "CHR ''.'' \<notin> set x" "CHR ''/'' \<notin> set x" by blast
  then show ?thesis
  proof cases
    case 1
    have b: "after_last CHR ''/'' (a @ t) = ba @ t" "after_last CHR ''/'' (a @ t') = ba @ t'"
      using t t' by (simp_all add: after_last_append ba_def)
    have d: "a @ t = da @ after_last CHR ''/'' (a @ t)" "a @ t' = da @ after_last CHR ''/'' (a @ t')"
      using da b by simp_all
    show ?thesis
    proof (cases "CHR ''.'' \<in> set ba")
      case False
      with t' b have "CHR ''.'' \<notin> set (after_last CHR ''/'' (a @ t'))" by simp
      with splitext_struct [OF d(2)] 1 show ?thesis by auto
    next
      case True
      from after_last_split [OF True] obtain st where st: "ba = st @ CHR ''.'' # after_last CHR ''.'' ba"
        by blast
      define y where "y = after_last CHR ''.'' ba"
      have ny: "CHR ''.'' \<notin> set y" by (simp add: y_def after_last_notin)
      have u: "\<And>st' x'. ba @ t = st' @ CHR ''.'' # x' \<Longrightarrow> CHR ''.'' \<notin> set x' \<Longrightarrow> st' = st"
      proof -
        fix st' x' assume h: "ba @ t = st' @ CHR ''.'' # x'" "CHR ''.'' \<notin> set x'"
        have "after_last CHR ''.'' (ba @ t) = x'" using h by (simp add: after_last_Cons)
        moreover have "after_last CHR ''.'' (ba @ t) = y @ t" using t by (simp add: after_last_append y_def)
        ultimately have "x' = y @ t" by simp
        with h(1) have "ba @ t = (st' @ CHR ''.'' # y) @ t" by simp
        then have "ba = st' @ CHR ''.'' # y" by (simp only: append_same_eq)
        moreover have "ba = st @ CHR ''.'' # y" using st by (simp only: y_def)
        ultimately have "st' @ CHR ''.'' # y = st @ CHR ''.'' # y" by simp
        then show "st' = st" by (simp only: append_same_eq)
      qed
      have u': "\<And>st' x'. ba @ t' = st' @ CHR ''.'' # x' \<Longrightarrow> CHR ''.'' \<notin> set x' \<Longrightarrow> st' = st"
      proof -
        fix st' x' assume h: "ba @ t' = st' @ CHR ''.'' # x'" "CHR ''.'' \<notin> set x'"
        have "after_last CHR ''.'' (ba @ t') = x'" using h by (simp add: after_last_Cons)
        moreover have "after_last CHR ''.'' (ba @ t') = y @ t'" using t' by (simp add: after_last_append y_def)
        ultimately have "x' = y @ t'" by simp
        with h(1) have "ba @ t' = (st' @ CHR ''.'' # y) @ t'" by simp
        then have "ba = st' @ CHR ''.'' # y" by (simp only: append_same_eq)
        moreover have "ba = st @ CHR ''.'' # y" using st by (simp only: y_def)
        ultimately have "st' @ CHR ''.'' # y = st @ CHR ''.'' # y" by simp
        then show "st' = st" by (simp only: append_same_eq)
      qed
      have alldots: "\<not> (\<exists>c \<in> set st. c \<noteq> CHR ''.'')"
      proof
        assume ex: "\<exists>c \<in> set st. c \<noteq> CHR ''.''"
        from splitext_struct [OF d(1)] True b obtain st' x' where
          h: "ba @ t = st' @ CHR ''.'' # x'" "CHR ''.'' \<notin> set x'"
          "splitext (a @ t) = (if \<exists>c \<in> set st'. c \<noteq> CHR ''.'' then (da @ st', CHR ''.'' # x') else (a @ t, []))"
          by auto
        from u [OF h(1,2)] ex h(3) have "splitext (a @ t) = (da @ st, CHR ''.'' # x')" by simp
        with sp 1 show False by simp
      qed
      from splitext_struct [OF d(2)] True b obtain st' x' where
        h: "ba @ t' = st' @ CHR ''.'' # x'" "CHR ''.'' \<notin> set x'"
        "splitext (a @ t') = (if \<exists>c \<in> set st'. c \<noteq> CHR ''.'' then (da @ st', CHR ''.'' # x') else (a @ t', []))"
        by auto
      from u' [OF h(1,2)] alldots h(3) 1 show ?thesis by simp
    qed
  next
    case 2
    let ?p = "a @ t' @ e"
    have b: "after_last CHR ''/'' ?p = ba @ t' @ CHR ''.'' # x"
      using t' 2 by (simp add: after_last_append ba_def)
    have d: "?p = da @ after_last CHR ''/'' ?p" using da b 2 by simp
    from splitext_struct [OF d] b obtain st' x' where
      h: "ba @ t' @ CHR ''.'' # x = st' @ CHR ''.'' # x'" "CHR ''.'' \<notin> set x'"
      "splitext ?p = (if \<exists>c \<in> set st'. c \<noteq> CHR ''.'' then (da @ st', CHR ''.'' # x') else (?p, []))"
      by auto
    have "after_last CHR ''.'' ((ba @ t') @ CHR ''.'' # x) = x" using 2 by (intro after_last_Cons)
    moreover have "after_last CHR ''.'' (st' @ CHR ''.'' # x') = x'" using h(2) by (intro after_last_Cons)
    ultimately have "x' = x" using h(1) by simp
    with h(1) have st': "st' = ba @ t'" by simp
    have "\<exists>c \<in> set st'. c \<noteq> CHR ''.''" using st' t' by (cases t') auto
    with h(3) st' \<open>x' = x\<close> 2 da show ?thesis by simp
  qed
qed


lemma version_here_chars:
  "version_here (c # d # r) \<Longrightarrow> c = CHR ''_'' \<and> d = CHR ''v'' \<and> (\<forall>x \<in> set r. is_digit x \<or> x = CHR 0x0A)"
proof -
  assume v: "version_here (c # d # r)"
  have "r = takeWhile is_digit r @ dropWhile is_digit r" by simp
  then have "set r = set (takeWhile is_digit r) \<union> set (dropWhile is_digit r)"
    by (metis set_append)
  moreover have "dropWhile is_digit r = [] \<or> dropWhile is_digit r = [CHR 0x0A]"
    using v by (simp add: version_here_def)
  ultimately have "\<forall>x \<in> set r. is_digit x \<or> x = CHR 0x0A"
    by (auto dest: set_takeWhileD)
  then show ?thesis using v by (simp add: version_here_def)
qed

lemma underscore_not_digit: "\<not> is_digit CHR ''_''" and lf_not_digit: "\<not> is_digit CHR 0x0A"
  by (simp_all add: is_digit_def py_ord_def)

lemma search_version_Some:
  "search_version s = Some (p, m) \<Longrightarrow>
     \<exists>ds nl. m = ''_v'' @ ds \<and> ds \<noteq> [] \<and> list_all is_digit ds
        \<and> (nl = [] \<or> nl = [CHR 0x0A]) \<and> s = p @ m @ nl"
proof (induction s arbitrary: p)
  case Nil
  then show ?case by simp
next
  case (Cons c cs)
  show ?case
  proof (cases "version_here (c # cs)")
    case True
    then obtain r where r: "c = CHR ''_''" "cs = CHR ''v'' # r" "takeWhile is_digit r \<noteq> []"
      "dropWhile is_digit r = [] \<or> dropWhile is_digit r = [CHR 0x0A]"
      by (auto simp: version_here_def split: list.splits)
    from True Cons.prems r have pm: "p = []" "m = ''_v'' @ takeWhile is_digit r" by auto
    have "list_all is_digit (takeWhile is_digit r)"
      by (auto simp: list_all_iff dest: set_takeWhileD)
    moreover have "c # cs = p @ m @ dropWhile is_digit r" using pm r by simp
    ultimately show ?thesis using pm r(3,4) by blast
  next
    case False
    with Cons.prems obtain p' where p': "search_version cs = Some (p', m)" "p = c # p'"
      by auto
    from Cons.IH [OF p'(1)] p'(2) show ?thesis by auto
  qed
qed

lemma search_version_found:
  assumes "ds \<noteq> []" and "list_all is_digit ds" and "nl = [] \<or> nl = [CHR 0x0A]"
  shows "search_version (p @ ''_v'' @ ds @ nl) = Some (p, ''_v'' @ ds)"
proof (induction p)
  case Nil
  have tw: "takeWhile is_digit (ds @ nl) = ds" and dw: "dropWhile is_digit (ds @ nl) = nl"
    using assms lf_not_digit by (auto simp: list_all_iff takeWhile_append dropWhile_append)
  then show ?case using assms(1,3) by (auto simp: version_here_def)
next
  case (Cons c p)
  have "\<not> version_here (c # p @ ''_v'' @ ds @ nl)"
  proof
    assume v: "version_here (c # p @ ''_v'' @ ds @ nl)"
    show False
    proof (cases p)
      case Nil
      with v version_here_chars [of c "CHR ''_''" "CHR ''v'' # ds @ nl"] show False by simp
    next
      case (Cons d q)
      with v version_here_chars [of c d "q @ ''_v'' @ ds @ nl"]
      have "is_digit CHR ''_'' \<or> CHR ''_'' = CHR 0x0A" by simp
      then show False using underscore_not_digit by simp
    qed
  qed
  with Cons.IH show ?case by simp
qed

lemma str_nat_digits: "list_all is_digit (str_nat n) \<and> str_nat n \<noteq> []"
proof (induction n rule: str_nat.induct)
  case (1 n)
  have d: "\<And>k. k < 10 \<Longrightarrow> is_digit (digit_char k)"
    by (simp add: is_digit_def digit_char_def py_ord_def)
  show ?case
  proof (cases "n < 10")
    case True
    then show ?thesis using d by (subst (1 2) str_nat.simps) simp
  next
    case False
    with 1 d [of "n mod 10"] show ?thesis by (subst (1 2) str_nat.simps) simp
  qed
qed

lemma alpha_position_code:
  "is_alpha c \<Longrightarrow> py_ord (upper_char c) - py_ord CHR ''A'' + 1 = alpha_position c"
  by (auto simp: alpha_position_def upper_char_def is_alpha_def is_upper_def is_lower_def py_ord_def)

lemma alpha_position_code_Suc:
  "is_alpha c \<Longrightarrow> Suc (py_ord (upper_char c) - py_ord CHR ''A'') = alpha_position c"
  using alpha_position_code [of c] by simp

lemma search_final_alpha_None:
  "search_final_alpha s = None \<longleftrightarrow>
     \<not> (\<exists>b c. is_alpha c \<and> (s = b @ [c] \<or> s = b @ [c, CHR 0x0A]))"
proof (cases s rule: rev_cases)
  case Nil
  then show ?thesis by (simp add: search_final_alpha_def)
next
  case (snoc b c)
  note s1 = snoc
  show ?thesis
  proof (cases "is_alpha c")
    case True
    with s1 show ?thesis by (auto simp: search_final_alpha_def)
  next
    case False
    show ?thesis
    proof (cases b rule: rev_cases)
      case Nil
      with s1 False show ?thesis by (auto simp: search_final_alpha_def)
    next
      case (snoc b' d)
      with s1 False show ?thesis by (auto simp: search_final_alpha_def)
    qed
  qed
qed




lemma digit_not_slash_dot: "is_digit x \<Longrightarrow> x \<noteq> CHR ''/'' \<and> x \<noteq> CHR ''.''"
  by (auto simp: is_digit_def py_ord_def)

lemma normalize_filename_eq:
  "splitext n = (s, e) \<Longrightarrow> strip_version s = (b, v) \<Longrightarrow>
     normalize_filename n = lower (strip (filter (\<lambda>c. \<not> is_sep c) b)) @ lower e"
  by (simp add: normalize_filename_def)

lemma convert_unchanged_key:
  assumes sp: "splitext name = (stem, ext)" and sv: "strip_version stem = (base, ver)"
  shows "normalize_filename (base @ ver @ ext) = normalize_filename name"
proof (cases "search_version stem")
  case None
  with sv have "base = stem" "ver = []" by (simp_all add: strip_version_def)
  then have "base @ ver @ ext = stem @ ext" by simp
  also have "\<dots> = name" using splitext_concat [OF sp] by simp
  finally show ?thesis by simp
next
  case (Some pm)
  with sv have sm: "search_version stem = Some (base, ver)"
    by (cases pm) (simp add: strip_version_def)
  from search_version_Some [OF sm] obtain ds nl where
    m: "ver = ''_v'' @ ds" "ds \<noteq> []" "list_all is_digit ds"
    and nl: "nl = [] \<or> nl = [CHR 0x0A]" and st: "stem = base @ ver @ nl" by blast
  have nm_eq: "name = stem @ ext" using splitext_concat [OF sp] .
  from nl show ?thesis
  proof
    assume "nl = []"
    with st have "stem = base @ ver" by simp
    then have "base @ ver @ ext = name" using nm_eq by simp
    then show ?thesis by simp
  next
    assume lf: "nl = [CHR 0x0A]"
    have nm: "CHR ''/'' \<notin> set ds" "CHR ''.'' \<notin> set ds"
      using m(3) digit_not_slash_dot by (auto simp: list_all_iff)
    have nv: "CHR ''/'' \<notin> set ver" "CHR ''.'' \<notin> set ver"
      unfolding m(1) using nm by simp_all
    have nvl: "CHR ''/'' \<notin> set (ver @ nl)" "CHR ''.'' \<notin> set (ver @ nl)"
      using nv lf by simp_all
    have vne: "ver \<noteq> []" "ver @ nl \<noteq> []" unfolding m(1) by simp_all
    have "splitext (base @ (ver @ nl) @ ext) = (base @ (ver @ nl), ext)"
      using sp unfolding nm_eq st by simp
    from splitext_swap_tail [OF this vne(2) nvl vne(1) nv]
    have sp': "splitext (base @ ver @ ext) = (base @ ver, ext)" .
    have "search_version (base @ ''_v'' @ ds @ []) = Some (base, ''_v'' @ ds)"
      by (rule search_version_found [OF m(2,3)]) simp
    then have "search_version (base @ ver) = Some (base, ver)" unfolding m(1) by simp
    then have sv': "strip_version (base @ ver) = (base, ver)" by (simp add: strip_version_def)
    show ?thesis
      unfolding normalize_filename_eq [OF sp' sv'] normalize_filename_eq [OF sp sv] ..
  qed
qed

text \<open>
  Claim C5 (as amended).  Let the stem of a filename be split into its base and its
  trailing version marker.  If the base ends in a letter of \<open>[a-zA-Z]\<close>, with or
  without a separator before it, the alpha-numeric key is the standard key of the name
  with that letter replaced by its 1-based position in the alphabet.  If the base ends
  neither in such a letter nor in such a letter followed by a line feed, the
  alpha-numeric key is the standard key of the name.
\<close>

theorem alpha_numeric_key:
  assumes sp: "splitext name = (stem, ext)" and sv: "strip_version stem = (base, ver)"
  shows "(is_alpha c \<and> base = b @ [c] \<longrightarrow>
           normalize_filename_with_alpha_numeric name
             = normalize_filename (b @ str_nat (alpha_position c) @ ver @ ext))
       \<and> (\<not> (\<exists>b c. is_alpha c \<and> (base = b @ [c] \<or> base = b @ [c, CHR 0x0A])) \<longrightarrow>
           normalize_filename_with_alpha_numeric name = normalize_filename name)"
proof (intro conjI impI)
  assume h: "is_alpha c \<and> base = b @ [c]"
  then have "search_final_alpha base = Some c" by (simp add: search_final_alpha_def)
  then have "convert_alpha_to_numeric_suffix name = b @ str_nat (alpha_position c) @ ver @ ext"
    using sp sv h by (simp add: convert_alpha_to_numeric_suffix_def Let_def alpha_position_code_Suc)
  then show "normalize_filename_with_alpha_numeric name
             = normalize_filename (b @ str_nat (alpha_position c) @ ver @ ext)"
    by (simp add: normalize_filename_with_alpha_numeric_def)
next
  assume "\<not> (\<exists>b c. is_alpha c \<and> (base = b @ [c] \<or> base = b @ [c, CHR 0x0A]))"
  then have "search_final_alpha base = None" using search_final_alpha_None [of base] by blast
  then have "convert_alpha_to_numeric_suffix name = base @ ver @ ext"
    using sp sv by (simp add: convert_alpha_to_numeric_suffix_def)
  then show "normalize_filename_with_alpha_numeric name = normalize_filename name"
    using convert_unchanged_key [OF sp sv] by (simp add: normalize_filename_with_alpha_numeric_def)
qed

theorem alpha_numeric_key_witness:
  "normalize_filename_with_alpha_numeric ''Widget-A_v12.JPG'' = normalize_filename ''Widget-1_v12.JPG''
   \<and> normalize_filename ''Widget-1_v12.JPG'' = ''widget1.jpg''
   \<and> normalize_filename_with_alpha_numeric ''Gadget7.jpg'' = normalize_filename ''Gadget7.jpg''"
proof -
  have sp: "splitext ''Widget-A_v12.JPG'' = (''Widget-A_v12'', ''.JPG'')" by code_simp
  have sv: "strip_version ''Widget-A_v12'' = (''Widget-'' @ [CHR ''A''], ''_v12'')" by code_simp
  have al: "is_alpha CHR ''A''" by code_simp
  have n1: "str_nat (alpha_position CHR ''A'') = ''1''" by code_simp
  have sp2: "splitext ''Gadget7.jpg'' = (''Gadget7'', ''.jpg'')" by code_simp
  have sv2: "strip_version ''Gadget7'' = (''Gadget7'', [])" by code_simp
  have "search_final_alpha ''Gadget7'' = None" by code_simp
  then have no: "\<not> (\<exists>b c. is_alpha c \<and> (''Gadget7'' = b @ [c] \<or> ''Gadget7'' = b @ [c, CHR 0x0A]))"
    using search_final_alpha_None [of "''Gadget7''"] by blast
  have k: "normalize_filename ''Widget-1_v12.JPG'' = ''widget1.jpg''" by code_simp
  have e1: "''Widget-'' @ str_nat (alpha_position CHR ''A'') @ ''_v12'' @ ''.JPG'' = ''Widget-1_v12.JPG''"
    unfolding n1 by simp
  have "normalize_filename_with_alpha_numeric ''Widget-A_v12.JPG''
      = normalize_filename (''Widget-'' @ str_nat (alpha_position CHR ''A'') @ ''_v12'' @ ''.JPG'')"
    using alpha_numeric_key [OF sp sv, of "CHR ''A''" "''Widget-''", THEN conjunct1] al by blast
  then have "normalize_filename_with_alpha_numeric ''Widget-A_v12.JPG'' = normalize_filename ''Widget-1_v12.JPG''"
    unfolding e1 .
  moreover have "normalize_filename_with_alpha_numeric ''Gadget7.jpg'' = normalize_filename ''Gadget7.jpg''"
    using alpha_numeric_key [OF sp2 sv2, THEN conjunct2] no by blast
  ultimately show ?thesis using k by simp
qed

text \<open>The stem \<open>Widget\<close> ends in a letter that no separator precedes; its alpha-numeric
  key differs from its standard key.\<close>

theorem trailing_letter_without_separator_counterexample:
  "normalize_filename_with_alpha_numeric ''Widget.jpg'' = ''widge20.jpg''
   \<and> normalize_filename ''Widget.jpg'' = ''widget.jpg''
   \<and> ''widge20.jpg'' \<noteq> ''widget.jpg''"
  by code_simp


section \<open>Properties of the code consolidator\<close>


lemma group_append_map_of:
  "map_of (group_append gs b c) =
     (map_of gs)(b \<mapsto> (case map_of gs b of None \<Rightarrow> [c] | Some cs \<Rightarrow> cs @ [c]))"
  by (induction gs b c rule: group_append.induct) (auto simp: fun_eq_iff)

lemma group_append_keys: "fst ` set (group_append gs b c) = insert b (fst ` set gs)"
  by (induction gs b c rule: group_append.induct) auto

lemma group_append_distinct:
  "distinct (map fst gs) \<Longrightarrow> distinct (map fst (group_append gs b c))"
proof (induction gs b c rule: group_append.induct)
  case (1 base code)
  then show ?case by simp
next
  case (2 b codes groups base code)
  then show ?case using group_append_keys [of groups base code] by auto
qed

lemma group_codes_snoc:
  "group_codes (xs @ [x]) =
     (case base_match x of Some b \<Rightarrow> group_append (group_codes xs) b x | None \<Rightarrow> group_codes xs)"
  by (simp add: group_codes_def split: option.splits)

lemma group_codes_distinct: "distinct (map fst (group_codes xs))"
proof (induction xs rule: rev_induct)
  case Nil
  then show ?case by (simp add: group_codes_def)
next
  case (snoc x xs)
  then show ?case
    by (auto simp: group_codes_snoc group_append_distinct split: option.splits)
qed

lemma group_codes_map_of:
  "map_of (group_codes xs) b =
     (if filter (\<lambda>c. base_match c = Some b) xs = [] then None
      else Some (filter (\<lambda>c. base_match c = Some b) xs))"
proof (induction xs arbitrary: b rule: rev_induct)
  case Nil
  then show ?case by (simp add: group_codes_def)
next
  case (snoc x xs)
  show ?case
  proof (cases "base_match x")
    case None
    with snoc [of b] show ?thesis by (simp add: group_codes_snoc)
  next
    case (Some b')
    show ?thesis
    proof (cases "b = b'")
      case True
      with Some snoc [of b'] show ?thesis
        by (simp add: group_codes_snoc group_append_map_of split: if_splits)
    next
      case False
      with Some snoc [of b] show ?thesis
        by (simp add: group_codes_snoc group_append_map_of)
    qed
  qed
qed

lemma group_codes_member:
  "(b, cs) \<in> set (group_codes xs) \<longleftrightarrow>
     cs = filter (\<lambda>c. base_match c = Some b) xs \<and> cs \<noteq> []"
proof -
  have "(b, cs) \<in> set (group_codes xs) \<longleftrightarrow> map_of (group_codes xs) b = Some cs"
    using group_codes_distinct [of xs] by simp
  then show ?thesis by (auto simp: group_codes_map_of)
qed

lemma foldl_update_const:
  "foldl (\<lambda>m c. m(c \<mapsto> v)) m cs x = (if x \<in> set cs then Some v else m x)"
  by (induction cs arbitrary: m) auto

lemma most_specific_single: "most_specific [c] = c"
  by (simp add: most_specific_def)

lemma consolidate_group_apply:
  "cs \<noteq> [] \<Longrightarrow>
     consolidate_group m cs x = (if x \<in> set cs then Some (most_specific cs) else m x)"
proof (cases "length cs = 1")
  case True
  then obtain c where "cs = [c]" by (cases cs) auto
  then show ?thesis by (simp add: consolidate_group_def most_specific_single)
next
  case False
  then show ?thesis by (simp add: consolidate_group_def foldl_update_const)
qed

lemma foldl_consolidate_group:
  assumes "\<forall>g \<in> set gs. g \<noteq> []"
    and "\<forall>g \<in> set gs. x \<in> set g \<longrightarrow> most_specific g = r"
  shows "foldl consolidate_group m gs x = (if \<exists>g \<in> set gs. x \<in> set g then Some r else m x)"
  using assms
proof (induction gs arbitrary: m)
  case Nil
  then show ?case by simp
next
  case (Cons g gs)
  have "foldl consolidate_group m (g # gs) x = foldl consolidate_group (consolidate_group m g) gs x"
    by simp
  also have "\<dots> = (if \<exists>h \<in> set gs. x \<in> set h then Some r else consolidate_group m g x)"
    using Cons.prems by (intro Cons.IH) auto
  also have "consolidate_group m g x = (if x \<in> set g then Some r else m x)"
    using Cons.prems by (simp add: consolidate_group_apply)
  finally show ?case by auto
qed

text \<open>The mapping, for a set of codes given in any order.\<close>

lemma consolidate_product_codes_apply:
  assumes "x \<in> set xs" and "base_match x = Some b"
  shows "consolidate_product_codes xs x
           = Some (most_specific (filter (\<lambda>c. base_match c = Some b) xs))"
proof -
  let ?g = "filter (\<lambda>c. base_match c = Some b) xs"
  let ?gs = "map snd (group_codes xs)"
  have xg: "x \<in> set ?g" using assms by simp
  then have "?g \<noteq> []" by (metis empty_iff empty_set)
  then have "(b, ?g) \<in> set (group_codes xs)" by (simp add: group_codes_member)
  then have ing: "?g \<in> set ?gs" by force
  have ne: "\<forall>g \<in> set ?gs. g \<noteq> []" by (auto simp: group_codes_member)
  have un: "\<forall>g \<in> set ?gs. x \<in> set g \<longrightarrow> most_specific g = most_specific ?g"
  proof (intro ballI impI)
    fix g assume "g \<in> set ?gs" "x \<in> set g"
    then obtain b' where "(b', g) \<in> set (group_codes xs)" by auto
    then have "g = filter (\<lambda>c. base_match c = Some b') xs" by (simp add: group_codes_member)
    with \<open>x \<in> set g\<close> assms(2) have "b' = b" by simp
    with \<open>g = filter (\<lambda>c. base_match c = Some b') xs\<close> show "most_specific g = most_specific ?g"
      by simp
  qed
  have "xs \<noteq> []" using assms(1) by auto
  then have "consolidate_product_codes xs x = foldl consolidate_group Map.empty ?gs x"
    by (simp add: consolidate_product_codes_def)
  also have "\<dots> = (if \<exists>g \<in> set ?gs. x \<in> set g then Some (most_specific ?g) else Map.empty x)"
    using ne un by (rule foldl_consolidate_group)
  finally have f: "consolidate_product_codes xs x
      = (if \<exists>g \<in> set ?gs. x \<in> set g then Some (most_specific ?g) else Map.empty x)" .
  have "\<exists>g \<in> set ?gs. x \<in> set g" using ing xg by blast
  with f show ?thesis by (simp only: if_True)
qed

lemma most_specific_least:
  assumes "g \<noteq> []"
  shows "most_specific g \<in> set g
       \<and> (\<forall>c \<in> set g. length c < length (most_specific g)
             \<or> (length c = length (most_specific g) \<and> most_specific g \<le> c))"
proof -
  let ?k = "\<lambda>x::string. (- int (length x), x)"
  let ?s = "sort_key ?k g"
  have ne: "?s \<noteq> []" using assms by (metis length_sort length_0_conv)
  then obtain r rest where s: "?s = r # rest" by (cases ?s) auto
  have r: "most_specific g = r" by (simp add: most_specific_def s)
  have "sorted (map ?k ?s)" by (rule sorted_sort_key)
  with s have le: "\<forall>y \<in> set rest. ?k r \<le> ?k y" by simp
  have set: "set g = insert r (set rest)" using s by (metis set_sort list.simps(15))
  have "\<forall>c \<in> set g. ?k r \<le> ?k c" using le set by auto
  then have "\<forall>c \<in> set g. length c < length r \<or> (length c = length r \<and> r \<le> c)"
    by (auto simp: less_eq_prod_def)
  then show ?thesis using r set by auto
qed



text \<open>
  Claim C1 (as amended).  For every set of product codes, in whatever order it is
  iterated, every code that has a leading run of letters and digits is mapped to a code
  of its group (the codes with the same leading run) that is longest in the group and,
  among the longest, lexicographically smallest.  A code that is a strict prefix of
  another code of its group is never the representative.
\<close>

theorem consolidate_representative:
  assumes "code \<in> set product_codes" and "base_match code = Some base"
    and "codes_group = filter (\<lambda>c. base_match c = Some base) product_codes"
  shows "\<exists>r. consolidate_product_codes product_codes code = Some r \<and> r \<in> set codes_group
           \<and> (\<forall>c \<in> set codes_group. length c \<le> length r)
           \<and> (\<forall>c \<in> set codes_group. length c = length r \<longrightarrow> r \<le> c)
           \<and> (\<forall>c \<in> set codes_group. \<forall>t. t \<noteq> [] \<and> c @ t \<in> set codes_group \<longrightarrow> r \<noteq> c)"
proof -
  let ?r = "most_specific codes_group"
  have "code \<in> set codes_group" using assms by simp
  then have ne: "codes_group \<noteq> []" by auto
  from most_specific_least [OF ne]
  have mem: "?r \<in> set codes_group"
    and least: "\<forall>c \<in> set codes_group. length c < length ?r \<or> (length c = length ?r \<and> ?r \<le> c)"
    by blast+
  have len: "\<forall>c \<in> set codes_group. length c \<le> length ?r" using least by auto
  have tie: "\<forall>c \<in> set codes_group. length c = length ?r \<longrightarrow> ?r \<le> c" using least by auto
  have pre: "\<forall>c \<in> set codes_group. \<forall>t. t \<noteq> [] \<and> c @ t \<in> set codes_group \<longrightarrow> ?r \<noteq> c"
  proof (intro ballI allI impI)
    fix c t assume "c \<in> set codes_group" and t: "t \<noteq> [] \<and> c @ t \<in> set codes_group"
    with len have "length (c @ t) \<le> length ?r" by blast
    with t have "length c < length ?r" by (cases t) auto
    then show "?r \<noteq> c" by auto
  qed
  have "consolidate_product_codes product_codes code = Some ?r"
    using consolidate_product_codes_apply [OF assms(1,2)] assms(3) by simp
  with mem len tie pre show ?thesis by blast
qed

theorem consolidate_representative_witness:
  "consolidate_product_codes [''UNIO22'', ''UNIO22-4'', ''UNIO22-10''] ''UNIO22'' = Some ''UNIO22-10''
   \<and> consolidate_product_codes [''UNIO22'', ''UNIO22-4'', ''UNIO22-10''] ''UNIO22-4'' = Some ''UNIO22-10''
   \<and> consolidate_product_codes [''UNIO22'', ''UNIO22-4'', ''UNIO22-10''] ''UNIO22-10'' = Some ''UNIO22-10''"
proof -
  let ?codes = "[''UNIO22'', ''UNIO22-4'', ''UNIO22-10'']"
  have g: "?codes = filter (\<lambda>c. base_match c = Some ''UNIO22'') ?codes" by code_simp
  have b: "base_match ''UNIO22'' = Some ''UNIO22''" "base_match ''UNIO22-4'' = Some ''UNIO22''"
    "base_match ''UNIO22-10'' = Some ''UNIO22''" by code_simp+
  have k: "\<And>code. code \<in> set ?codes \<Longrightarrow> base_match code = Some ''UNIO22'' \<Longrightarrow>
             consolidate_product_codes ?codes code = Some ''UNIO22-10''"
  proof -
    fix code assume c: "code \<in> set ?codes" "base_match code = Some ''UNIO22''"
    from consolidate_representative [OF c g] obtain r where
      r: "consolidate_product_codes ?codes code = Some r" "r \<in> set ?codes"
        "\<forall>c \<in> set ?codes. length c \<le> length r" by blast
    from r(3) have "length ''UNIO22-10'' \<le> length r" by simp
    with r(2) have "r = ''UNIO22-10''" by auto
    with r(1) show "consolidate_product_codes ?codes code = Some ''UNIO22-10''" by simp
  qed
  show ?thesis using k [OF _ b(1)] k [OF _ b(2)] k [OF _ b(3)] by simp
qed

text \<open>Two codes of one group and of the same length: both are mapped to the
  lexicographically earlier one, in either iteration order.\<close>

theorem consolidate_tie_counterexample:
  "consolidate_product_codes [''AB-1'', ''AB-2''] ''AB-1'' = Some ''AB-1''
   \<and> consolidate_product_codes [''AB-1'', ''AB-2''] ''AB-2'' = Some ''AB-1''
   \<and> consolidate_product_codes [''AB-2'', ''AB-1''] ''AB-1'' = Some ''AB-1''
   \<and> consolidate_product_codes [''AB-2'', ''AB-1''] ''AB-2'' = Some ''AB-1''
   \<and> base_match ''AB-1'' = base_match ''AB-2''
   \<and> length ''AB-1'' = length ''AB-2'' \<and> ''AB-1'' < ''AB-2''"
  by code_simp


section \<open>Properties of the pruning routines\<close>


lemma concat_map_filter_Nil:
  "(\<And>x. x \<in> set xs \<Longrightarrow> \<not> P x \<Longrightarrow> g x = []) \<Longrightarrow> concat (map g (filter P xs)) = concat (map g xs)"
  by (induction xs) auto

lemma is_empty_no_files: "is_empty t \<Longrightarrow> file_paths t = []"
proof (induction t)
  case (File n c)
  then show ?case by simp
next
  case (Dir n es)
  then have "\<And>e. e \<in> set es \<Longrightarrow> file_paths e = []" by (auto simp: list_all_iff)
  then show ?case by simp
qed

lemma clean_up_name: "node_name (clean_up rm root t) = node_name t"
  by (cases t) auto

lemma clean_up_is_dir: "is_dir (clean_up rm root t) = is_dir t"
  by (cases t) auto

lemma clean_up_files: "file_paths (clean_up rm root t) = file_paths t"
proof (induction t arbitrary: root)
  case (File n c)
  then show ?case by simp
next
  case (Dir n es)
  let ?f = "\<lambda>e. clean_up rm (root @ [node_name e]) e"
  let ?g = "\<lambda>e. map (\<lambda>(p, c). (node_name e # p, c)) (file_paths e)"
  let ?P = "\<lambda>e. \<not> (is_dir e \<and> node_name e \<noteq> ''Old Images'' \<and> is_empty e \<and> rm (root @ [node_name e]))"
  have "concat (map ?g (filter ?P (map ?f es))) = concat (map ?g (map ?f es))"
    by (rule concat_map_filter_Nil) (auto dest: is_empty_no_files)
  also have "\<dots> = concat (map ?g es)"
    using Dir.IH by (simp add: clean_up_name cong: map_cong)
  finally show ?case by simp
qed



lemma find_entry_Some: "find_entry x es = Some e \<Longrightarrow> e \<in> set es \<and> node_name e = x"
  by (induction es) (auto split: if_splits)

lemma find_entry_None: "find_entry x es = None \<longleftrightarrow> x \<notin> node_name ` set es"
  by (induction es) auto

lemma find_entry_unique:
  "distinct (map node_name es) \<Longrightarrow> e \<in> set es \<Longrightarrow> find_entry (node_name e) es = Some e"
  by (induction es) (auto simp: rev_image_eqI)

lemma find_entry_filter:
  "x \<noteq> y \<Longrightarrow> find_entry y (filter (\<lambda>e. node_name e \<noteq> x) es) = find_entry y es"
  by (induction es) auto

lemma find_entry_filter_same: "find_entry x (filter (\<lambda>e. node_name e \<noteq> x) es) = None"
  by (induction es) auto

lemma find_entry_map:
  "(\<And>e. node_name (f e) = node_name e) \<Longrightarrow> find_entry y (map f es) = map_option f (find_entry y es)"
  by (induction es) auto

lemma truly_empty_iff: "is_directory_truly_empty t p \<longleftrightarrow> (\<exists>n. lookup t p = Some (Dir n []))"
  by (auto simp: is_directory_truly_empty_def split: option.splits node.splits list.splits)

lemma remove_at_name: "node_name (remove_at p t) = node_name t"
  by (induction p t rule: remove_at.induct) auto

lemma remove_at_wf: "wf_tree t \<Longrightarrow> wf_tree (remove_at p t)"
proof (induction p t rule: remove_at.induct)
  case (4 x y p n es)
  let ?f = "\<lambda>e. if node_name e = x then remove_at (y # p) e else e"
  have nm: "map node_name (map ?f es) = map node_name es"
    by (simp add: remove_at_name)
  have "list_all wf_tree (map ?f es)"
    using 4 by (auto simp: list_all_iff)
  moreover have "distinct (map node_name (map ?f es))"
    unfolding nm using 4(2) by simp
  ultimately show ?case by (simp del: map_map)
qed (auto simp: list_all_iff distinct_map_filter)

lemma lookup_remove_self: "q \<noteq> [] \<Longrightarrow> lookup (remove_at q t) q = None"
proof (induction q t rule: remove_at.induct)
  case (1 p n c)
  then show ?case by (cases p) auto
next
  case (2 n es)
  then show ?case by simp
next
  case (3 x n es)
  then show ?case by (simp add: find_entry_filter_same)
next
  case (4 x y p n es)
  let ?f = "\<lambda>e. if node_name e = x then remove_at (y # p) e else e"
  have fm: "find_entry x (map ?f es) = map_option ?f (find_entry x es)"
    by (rule find_entry_map) (simp add: remove_at_name)
  show ?case
  proof (cases "find_entry x es")
    case None
    with fm show ?thesis by simp
  next
    case (Some e)
    then have "e \<in> set es" "node_name e = x" using find_entry_Some by blast+
    with 4 Some fm show ?thesis by simp
  qed
qed


lemma remove_at_files:
  "wf_tree t \<Longrightarrow> is_directory_truly_empty t p \<Longrightarrow> file_paths (remove_at p t) = file_paths t"
proof (induction p t rule: remove_at.induct)
  case (1 p n c)
  then show ?case by simp
next
  case (2 n es)
  then show ?case by simp
next
  case (3 x n es)
  let ?g = "\<lambda>e. map (\<lambda>(p, c). (node_name e # p, c)) (file_paths e)"
  from 3(2) obtain m where m: "find_entry x es = Some (Dir m [])"
    by (auto simp: truly_empty_iff split: option.splits)
  have "concat (map ?g (filter (\<lambda>e. node_name e \<noteq> x) es)) = concat (map ?g es)"
  proof (rule concat_map_filter_Nil)
    fix e assume e: "e \<in> set es" "\<not> node_name e \<noteq> x"
    with 3(1) have "find_entry x es = Some e" using find_entry_unique [of es e] by auto
    with m show "?g e = []" by simp
  qed
  then show ?case by simp
next
  case (4 x y p n es)
  let ?f = "\<lambda>e. if node_name e = x then remove_at (y # p) e else e"
  let ?g = "\<lambda>e. map (\<lambda>(p, c). (node_name e # p, c)) (file_paths e)"
  from 4(3) obtain e0 where e0: "find_entry x es = Some e0"
    and emp: "is_directory_truly_empty e0 (y # p)"
    by (auto simp: truly_empty_iff split: option.splits)
  have "\<And>e. e \<in> set es \<Longrightarrow> ?g (?f e) = ?g e"
  proof -
    fix e assume e: "e \<in> set es"
    show "?g (?f e) = ?g e"
    proof (cases "node_name e = x")
      case True
      with 4(2) e have "find_entry x es = Some e" using find_entry_unique [of es e] by auto
      with e0 have "e = e0" by simp
      moreover have "wf_tree e" using 4(2) e by (auto simp: list_all_iff)
      ultimately have "file_paths (remove_at (y # p) e) = file_paths e"
        using 4(1) [OF e True] emp by simp
      then show ?thesis using True by (simp add: remove_at_name)
    next
      case False
      then show ?thesis by simp
    qed
  qed
  then have "map ?g (map ?f es) = map ?g es" by (simp del: remove_at.simps)
  then have "concat (map ?g (map ?f es)) = concat (map ?g es)" by (simp only:)
  then show ?case by (simp del: map_map add: comp_def)
qed

lemma remove_at_absent:
  "wf_tree t \<Longrightarrow> lookup t p = None \<Longrightarrow> remove_at p t = t"
proof (induction p t rule: remove_at.induct)
  case (1 p n c)
  then show ?case by simp
next
  case (2 n es)
  then show ?case by simp
next
  case (3 x n es)
  then have "x \<notin> node_name ` set es"
    by (auto simp: find_entry_None [symmetric] split: option.splits)
  then have "filter (\<lambda>e. node_name e \<noteq> x) es = es" by (auto intro: filter_True)
  then show ?case by simp
next
  case (4 x y p n es)
  let ?f = "\<lambda>e. if node_name e = x then remove_at (y # p) e else e"
  have "\<And>e. e \<in> set es \<Longrightarrow> ?f e = e"
  proof -
    fix e assume e: "e \<in> set es"
    show "?f e = e"
    proof (cases "node_name e = x")
      case True
      with 4(2) e have fe: "find_entry x es = Some e" using find_entry_unique [of es e] by auto
      with 4(3) have "lookup e (y # p) = None" by simp
      moreover have "wf_tree e" using 4(2) e by (auto simp: list_all_iff)
      ultimately show ?thesis using 4(1) [OF e True] True by simp
    next
      case False
      then show ?thesis by simp
    qed
  qed
  then have "map ?f es = es" by (simp add: map_idI del: remove_at.simps)
  then show ?case by simp
qed

lemma lookup_remove_absent: "lookup t p = None \<Longrightarrow> lookup (remove_at q t) p = None"
proof (induction q t arbitrary: p rule: remove_at.induct)
  case (1 q n c)
  then show ?case by simp
next
  case (2 n es)
  then show ?case by simp
next
  case (3 x n es)
  from 3 obtain z p' where p: "p = z # p'" by (cases p) auto
  show ?case
  proof (cases "z = x")
    case True
    with p show ?thesis by (simp add: find_entry_filter_same)
  next
    case False
    with p 3 show ?thesis by (simp add: find_entry_filter)
  qed
next
  case (4 x y q n es)
  let ?f = "\<lambda>e. if node_name e = x then remove_at (y # q) e else e"
  from 4(2) obtain z p' where p: "p = z # p'" by (cases p) auto
  have fm: "find_entry z (map ?f es) = map_option ?f (find_entry z es)"
    by (rule find_entry_map) (simp add: remove_at_name)
  show ?case
  proof (cases "find_entry z es")
    case None
    with fm p show ?thesis by simp
  next
    case (Some e)
    then have e: "e \<in> set es" "node_name e = z" using find_entry_Some by blast+
    from Some 4(2) p have l: "lookup e p' = None" by simp
    show ?thesis
    proof (cases "z = x")
      case True
      with e 4(1) [OF e(1) _ l] Some fm p show ?thesis by simp
    next
      case False
      with e Some fm p l show ?thesis by simp
    qed
  qed
qed

lemma truly_empty_remove_other:
  "is_directory_truly_empty t q \<Longrightarrow> is_directory_truly_empty t p \<Longrightarrow> p \<noteq> q \<Longrightarrow>
     is_directory_truly_empty (remove_at q t) p"
proof (induction q t arbitrary: p rule: remove_at.induct)
  case (1 q n c)
  then show ?case by simp
next
  case (2 n es)
  then show ?case by simp
next
  case (3 x n es)
  from 3(1) obtain m where m: "find_entry x es = Some (Dir m [])"
    by (auto simp: truly_empty_iff split: option.splits)
  then have "es \<noteq> []" by auto
  with 3(2) obtain z p' where p: "p = z # p'" by (cases p) (auto simp: truly_empty_iff)
  show ?case
  proof (cases "z = x")
    case True
    with p 3(3) obtain w p'' where "p' = w # p''" by (cases p') auto
    with True p m 3(2) show ?thesis by (simp add: truly_empty_iff)
  next
    case False
    with p 3(2) show ?thesis by (simp add: truly_empty_iff find_entry_filter)
  qed
next
  case (4 x y q n es)
  let ?f = "\<lambda>e. if node_name e = x then remove_at (y # q) e else e"
  from 4(2) obtain e0 where e0: "find_entry x es = Some e0"
    and emp: "is_directory_truly_empty e0 (y # q)"
    by (auto simp: truly_empty_iff split: option.splits)
  then have "es \<noteq> []" by auto
  with 4(3) obtain z p' where p: "p = z # p'" by (cases p) (auto simp: truly_empty_iff)
  have fm: "find_entry z (map ?f es) = map_option ?f (find_entry z es)"
    by (rule find_entry_map) (simp add: remove_at_name)
  from 4(3) p obtain e where e: "find_entry z es = Some e" and pe: "is_directory_truly_empty e p'"
    by (auto simp: truly_empty_iff split: option.splits)
  have ein: "e \<in> set es" "node_name e = z" using e find_entry_Some by blast+
  show ?case
  proof (cases "z = x")
    case True
    with e e0 have "e = e0" by simp
    moreover from True p 4(4) have "p' \<noteq> y # q" by simp
    ultimately have "is_directory_truly_empty (remove_at (y # q) e) p'"
      using 4(1) [OF ein(1) _ _ pe] emp ein(2) True by simp
    with True ein e fm p show ?thesis by (simp add: truly_empty_iff)
  next
    case False
    with ein e fm p pe show ?thesis by (simp add: truly_empty_iff)
  qed
qed



lemma remove_if_empty_inv:
  assumes "wf_tree (fst s)"
  shows "wf_tree (fst (remove_if_empty rm s p))
       \<and> file_paths (fst (remove_if_empty rm s p)) = file_paths (fst s)"
proof -
  obtain t k where s: "s = (t, k)" by (cases s)
  with assms show ?thesis
    by (auto simp: remove_if_empty_def remove_at_wf remove_at_files)
qed

lemma foldl_remove_if_empty_inv:
  "wf_tree (fst s) \<Longrightarrow>
     wf_tree (fst (foldl (remove_if_empty rm) s ps))
     \<and> file_paths (fst (foldl (remove_if_empty rm) s ps)) = file_paths (fst s)"
proof (induction ps arbitrary: s)
  case Nil
  then show ?case by simp
next
  case (Cons p ps)
  from remove_if_empty_inv [OF Cons.prems, of rm p]
  have w: "wf_tree (fst (remove_if_empty rm s p))"
    and f: "file_paths (fst (remove_if_empty rm s p)) = file_paths (fst s)" by blast+
  from Cons.IH [OF w] f show ?case by simp
qed

lemma prune_pass_inv:
  "wf_tree t \<Longrightarrow> wf_tree (fst (prune_pass rm t)) \<and> file_paths (fst (prune_pass rm t)) = file_paths t"
  using foldl_remove_if_empty_inv [of "(t, 0)" rm] by (simp add: prune_pass_def)

lemma prune_passes_inv:
  "wf_tree (fst s) \<Longrightarrow>
     wf_tree (fst (prune_passes k rm s)) \<and> file_paths (fst (prune_passes k rm s)) = file_paths (fst s)"
proof (induction k arbitrary: s)
  case 0
  then show ?case by simp
next
  case (Suc k)
  obtain t r where s: "s = (t, r)" by (cases s)
  obtain t' c where p: "prune_pass rm t = (t', c)" by (cases "prune_pass rm t")
  from Suc.prems s have "wf_tree t" by simp
  from prune_pass_inv [OF this, of rm] p
  have w: "wf_tree t'" and f: "file_paths t' = file_paths t" by simp_all
  show ?case
  proof (cases "c = 0")
    case True
    with s p w f show ?thesis by simp
  next
    case False
    from Suc.IH [of "(t', r + c)"] w have
      "wf_tree (fst (prune_passes k rm (t', r + c)))
       \<and> file_paths (fst (prune_passes k rm (t', r + c))) = file_paths t'" by simp
    with False s p f show ?thesis by simp
  qed
qed

lemma final_removal_inv:
  assumes "wf_tree t"
    and "\<forall>p \<in> set ps. p \<noteq> [] \<and> (lookup t p = None \<or> is_directory_truly_empty t p)"
  shows "file_paths (fst (foldl (\<lambda>(t, k) p. if rm p then (remove_at p t, k + 1) else (t, k)) (t, k) ps))
           = file_paths t"
  using assms
proof (induction ps arbitrary: t k)
  case Nil
  then show ?case by simp
next
  case (Cons p ps)
  let ?F = "\<lambda>(t, k) p. if rm p then (remove_at p t, k + (1::nat)) else (t, k)"
  show ?case
  proof (cases "rm p")
    case False
    with Cons.IH [of t k] Cons.prems show ?thesis by simp
  next
    case True
    from Cons.prems have pne: "p \<noteq> []" and pc: "lookup t p = None \<or> is_directory_truly_empty t p"
      by auto
    have f: "file_paths (remove_at p t) = file_paths t"
      using pc Cons.prems(1) remove_at_files remove_at_absent by fastforce
    have w: "wf_tree (remove_at p t)" using Cons.prems(1) by (rule remove_at_wf)
    have inv: "\<forall>r \<in> set ps. r \<noteq> [] \<and> (lookup (remove_at p t) r = None
                 \<or> is_directory_truly_empty (remove_at p t) r)"
    proof
      fix r assume r: "r \<in> set ps"
      with Cons.prems have rne: "r \<noteq> []"
        and rc: "lookup t r = None \<or> is_directory_truly_empty t r" by auto
      show "r \<noteq> [] \<and> (lookup (remove_at p t) r = None \<or> is_directory_truly_empty (remove_at p t) r)"
      proof (cases "r = p")
        case True
        with pne rne show ?thesis by (simp add: lookup_remove_self)
      next
        case False
        from rc show ?thesis
        proof
          assume "lookup t r = None"
          then show ?thesis using rne by (simp add: lookup_remove_absent)
        next
          assume re: "is_directory_truly_empty t r"
          from pc show ?thesis
          proof
            assume "lookup t p = None"
            then have "remove_at p t = t" using Cons.prems(1) by (simp add: remove_at_absent)
            with re rne show ?thesis by simp
          next
            assume "is_directory_truly_empty t p"
            from truly_empty_remove_other [OF this re False] rne show ?thesis by simp
          qed
        qed
      qed
    qed
    from Cons.IH [OF w inv, of "k + 1"] f True show ?thesis by simp
  qed
qed

lemma remove_empty_dirs_aggressive_files:
  assumes "wf_tree t"
  shows "file_paths (fst (remove_empty_dirs_aggressive rm t)) = file_paths t"
proof -
  obtain t1 r1 where p: "prune_passes 10 rm (t, 0) = (t1, r1)" by (cases "prune_passes 10 rm (t, 0)")
  from prune_passes_inv [of "(t, 0)" 10 rm] assms p
  have w: "wf_tree t1" and f: "file_paths t1 = file_paths t" by simp_all
  let ?re = "filter (\<lambda>p. p \<notin> set kept_folders \<and> p \<noteq> [] \<and> is_directory_truly_empty t1 p)
               (walk_roots [] t1)"
  let ?F = "\<lambda>(t, k) p. if rm p then (remove_at p t, k + (1::nat)) else (t, k)"
  have g: "file_paths (fst (foldl ?F (t1, 0) ?re)) = file_paths t1"
    by (rule final_removal_inv [OF w]) auto
  obtain t2 r2 where q: "foldl ?F (t1, 0) ?re = (t2, r2)" by (cases "foldl ?F (t1, 0) ?re")
  have "fst (remove_empty_dirs_aggressive rm t) = t2"
    using p q by (simp add: remove_empty_dirs_aggressive_def Let_def)
  with g q f show ?thesis by simp
qed

lemma file_path_dirs:
  "(p @ q, c) \<in> set (file_paths t) \<Longrightarrow> p \<noteq> [] \<Longrightarrow> q \<noteq> [] \<Longrightarrow> p \<in> set (dir_paths t)"
proof (induction t arbitrary: p)
  case (File n c')
  then show ?case by simp
next
  case (Dir n es)
  from Dir.prems(1) obtain e p' where e: "e \<in> set es" and pq: "p @ q = node_name e # p'"
    and m: "(p', c) \<in> set (file_paths e)" by auto
  from Dir.prems(2) pq obtain p1 where p: "p = node_name e # p1" and p': "p' = p1 @ q"
    by (cases p) auto
  have d: "is_dir e"
  proof (cases e)
    case (File n2 c2)
    with m p' Dir.prems(3) show ?thesis by simp
  next
    case (Dir n2 es2)
    then show ?thesis by simp
  qed
  show ?case
  proof (cases "p1 = []")
    case True
    with p e d show ?thesis by force
  next
    case False
    from Dir.IH [OF e _ False Dir.prems(3)] m p' have "p1 \<in> set (dir_paths e)" by simp
    with p e d show ?thesis by force
  qed
qed



text \<open>
  Claim C8 (as amended).  Neither pruning routine deletes a file: the files of the tree,
  with their paths and contents, are the same after \<open>clean_up_empty_product_folders\<close>
  and after \<open>remove_empty_dirs_aggressive\<close>, whichever removals fail.  Hence every
  directory that has a file below it, an \<open>Old Images\<close> directory or any other, is still
  there afterwards.  (A directory named \<open>Old Images\<close> with no file below it is not
  protected.)
\<close>

theorem pruning_keeps_files:
  assumes "wf_tree t"
  shows "file_paths (clean_up_empty_product_folders rm t) = file_paths t
       \<and> file_paths (fst (remove_empty_dirs_aggressive rm' t)) = file_paths t
       \<and> (\<forall>p q c. p \<noteq> [] \<and> q \<noteq> [] \<and> (p @ q, c) \<in> set (file_paths t) \<longrightarrow>
             p \<in> set (dir_paths (clean_up_empty_product_folders rm t))
             \<and> p \<in> set (dir_paths (fst (remove_empty_dirs_aggressive rm' t))))"
proof -
  have a: "file_paths (clean_up_empty_product_folders rm t) = file_paths t"
    by (simp add: clean_up_empty_product_folders_def clean_up_files)
  have b: "file_paths (fst (remove_empty_dirs_aggressive rm' t)) = file_paths t"
    using assms by (rule remove_empty_dirs_aggressive_files)
  have "\<And>p q c. p \<noteq> [] \<Longrightarrow> q \<noteq> [] \<Longrightarrow> (p @ q, c) \<in> set (file_paths t) \<Longrightarrow>
          p \<in> set (dir_paths (clean_up_empty_product_folders rm t))
          \<and> p \<in> set (dir_paths (fst (remove_empty_dirs_aggressive rm' t)))"
    using file_path_dirs a b by metis
  with a b show ?thesis by blast
qed

theorem pruning_keeps_files_witness:
  "wf_tree (Dir ''webp'' [Dir ''P'' [Dir ''Old Images'' []],
                           Dir ''Q'' [Dir ''Old Images'' [File ''a.jpg'' 1]]])
   \<and> file_paths (clean_up_empty_product_folders (\<lambda>p. True)
        (Dir ''webp'' [Dir ''P'' [Dir ''Old Images'' []],
                        Dir ''Q'' [Dir ''Old Images'' [File ''a.jpg'' 1]]]))
       = [([''Q'', ''Old Images'', ''a.jpg''], 1)]
   \<and> [''Q'', ''Old Images''] \<in> set (dir_paths (fst (remove_empty_dirs_aggressive (\<lambda>p. True)
        (Dir ''webp'' [Dir ''P'' [Dir ''Old Images'' []],
                        Dir ''Q'' [Dir ''Old Images'' [File ''a.jpg'' 1]]]))))"
proof -
  let ?t = "Dir ''webp'' [Dir ''P'' [Dir ''Old Images'' []],
                           Dir ''Q'' [Dir ''Old Images'' [File ''a.jpg'' 1]]]"
  have w: "wf_tree ?t" by simp
  have f: "file_paths ?t = [([''Q'', ''Old Images'', ''a.jpg''], 1)]" by simp
  have m: "([''Q'', ''Old Images''] @ [''a.jpg''], 1) \<in> set (file_paths ?t)" by simp
  from pruning_keeps_files [OF w, of "\<lambda>p. True" "\<lambda>p. True"] f m w show ?thesis
    by (metis list.distinct(1))
qed

text \<open>A directory \<open>P\<close> that holds only an empty \<open>Old Images\<close> directory: both routines
  delete \<open>P\<close> and the \<open>Old Images\<close> directory in it.\<close>

theorem empty_old_images_removed_counterexample:
  "[''P'', ''Old Images''] \<in> set (dir_paths (Dir ''webp'' [Dir ''P'' [Dir ''Old Images'' []]]))
   \<and> dir_paths (clean_up_empty_product_folders (\<lambda>p. True)
        (Dir ''webp'' [Dir ''P'' [Dir ''Old Images'' []]])) = []
   \<and> dir_paths (fst (remove_empty_dirs_aggressive (\<lambda>p. True)
        (Dir ''webp'' [Dir ''P'' [Dir ''Old Images'' []]]))) = []"
  by code_simp


section \<open>Properties of the folder materializer\<close>


lemma empty_dir_paths_nonempty: "p \<in> set (empty_dir_paths t) \<Longrightarrow> p \<noteq> []"
  by (cases t) auto

lemma empty_dir_is_empty: "is_dir e \<Longrightarrow> entries e = [] \<Longrightarrow> is_empty e"
  by (cases e) auto

lemma clean_up_no_empty:
  "\<forall>p. rm p \<Longrightarrow> p \<in> set (empty_dir_paths (clean_up rm root t)) \<Longrightarrow> last p = ''Old Images''"
proof (induction t arbitrary: root p)
  case (File n c)
  then show ?case by simp
next
  case (Dir n es)
  let ?f = "\<lambda>e. clean_up rm (root @ [node_name e]) e"
  let ?keep = "\<lambda>e. \<not> (is_dir e \<and> node_name e \<noteq> ''Old Images'' \<and> is_empty e \<and> rm (root @ [node_name e]))"
  from Dir.prems(2) obtain e where e: "e \<in> set es" and k: "?keep (?f e)"
    and p: "p \<in> set ((if is_dir (?f e) \<and> entries (?f e) = [] then [[node_name (?f e)]] else [])
                @ map (\<lambda>q. node_name (?f e) # q) (empty_dir_paths (?f e)))"
    by auto
  from p consider "is_dir (?f e)" "entries (?f e) = []" "p = [node_name (?f e)]"
    | q where "q \<in> set (empty_dir_paths (?f e))" "p = node_name (?f e) # q"
    by (auto split: if_splits)
  then show ?case
  proof cases
    case 1
    then have "is_empty (?f e)" using empty_dir_is_empty by blast
    with k 1 Dir.prems(1) have "node_name (?f e) = ''Old Images''" by auto
    with 1 show ?thesis by simp
  next
    case 2
    from Dir.IH [OF e Dir.prems(1) 2(1)] have "last q = ''Old Images''" .
    moreover have "q \<noteq> []" using 2(1) by (rule empty_dir_paths_nonempty)
    ultimately show ?thesis using 2(2) by simp
  qed
qed

text \<open>
  Claim C7 (as amended).  When the folder exists and \<open>organize_webp_files\<close> returns, it
  returns \<open>True\<close>, whatever the cleanup left behind: it has no verification pass.  When
  no removal of the cleanup fails, the only directories without entries that remain
  below the root are directories named \<open>Old Images\<close>.
\<close>

theorem organize_run_empty_folders:
  assumes "organize_webp_files clock mk mv rm (Some t) = Inr (Some t', ok)"
  shows "ok \<and> ((\<forall>p. rm p) \<longrightarrow> (\<forall>p \<in> set (empty_dir_paths t'). last p = ''Old Images''))"
proof -
  from assms obtain t1 k where r: "organize_webp_folder_only clock mk mv (t, 0) = Inr (t1, k)"
    and t': "t' = clean_up_empty_product_folders rm t1" and ok: "ok"
    by (auto simp: organize_webp_files_def split: sum.splits)
  have "(\<forall>p. rm p) \<longrightarrow> (\<forall>p \<in> set (empty_dir_paths t'). last p = ''Old Images'')"
    unfolding t' clean_up_empty_product_folders_def using clean_up_no_empty by blast
  with ok show ?thesis by simp
qed

theorem organize_run_empty_folders_witness:
  "organize_webp_files (\<lambda>k. ''20260101_120000'') (\<lambda>p. True) (\<lambda>s d. True) (\<lambda>p. True)
     (Some (Dir ''webp'' [Dir ''A'' [Dir ''B'' []], Dir ''C'' [Dir ''Old Images'' []],
                          Dir ''Old Images'' []]))
     = Inr (Some (Dir ''webp'' [Dir ''Old Images'' []]), True)
   \<and> list_all (\<lambda>p. last p = ''Old Images'') (empty_dir_paths (Dir ''webp'' [Dir ''Old Images'' []]))"
proof -
  have r: "organize_webp_files (\<lambda>k. ''20260101_120000'') (\<lambda>p. True) (\<lambda>s d. True) (\<lambda>p. True)
     (Some (Dir ''webp'' [Dir ''A'' [Dir ''B'' []], Dir ''C'' [Dir ''Old Images'' []],
                          Dir ''Old Images'' []]))
     = Inr (Some (Dir ''webp'' [Dir ''Old Images'' []]), True)" by code_simp
  from organize_run_empty_folders [OF r] show ?thesis
    using r by (simp add: list_all_iff)
qed

text \<open>A removal that fails (\<open>rm\<close> false): the empty directory \<open>A\<close> survives, and the run
  returns \<open>True\<close>.\<close>

theorem surviving_empty_folder_counterexample:
  "organize_webp_files (\<lambda>k. ''20260101_120000'') (\<lambda>p. True) (\<lambda>s d. True) (\<lambda>p. False)
     (Some (Dir ''webp'' [Dir ''A'' []]))
     = Inr (Some (Dir ''webp'' [Dir ''A'' []]), True)
   \<and> empty_dir_paths (Dir ''webp'' [Dir ''A'' []]) = [[''A'']]"
  by code_simp



lemma dot_not_space: "\<not> is_space CHR ''.''" and dot_not_sep: "\<not> is_sep CHR ''.''"
  and dot_not_digit: "\<not> is_digit CHR ''.''" and dot_not_alpha: "\<not> is_alpha CHR ''.''"
  by (simp_all add: is_space_def is_sep_def is_digit_def is_alpha_def is_upper_def is_lower_def
      py_ord_def)

lemma lower_char_dot: "lower_char c = CHR ''.'' \<longleftrightarrow> c = CHR ''.''"
proof
  assume a: "lower_char c = CHR ''.''"
  show "c = CHR ''.''"
  proof (rule ccontr)
    assume n: "c \<noteq> CHR ''.''"
    with a have u: "is_upper c \<or> (192 \<le> py_ord c \<and> py_ord c \<le> 222 \<and> py_ord c \<noteq> 215)"
      and e: "char_of (py_ord c + 32) = CHR ''.''"
      by (auto simp: lower_char_def split: if_splits)
    from e have "of_char (char_of (py_ord c + 32) :: char) = (46::nat)" by simp
    then have "(py_ord c + 32) mod 256 = 46" by simp
    with u show False by (auto simp: is_upper_def)
  qed
next
  assume "c = CHR ''.''"
  then show "lower_char c = CHR ''.''"
    by (simp add: lower_char_def is_upper_def py_ord_def)
qed

lemma lower_dot: "CHR ''.'' \<in> set (lower s) \<longleftrightarrow> CHR ''.'' \<in> set s"
proof -
  have "CHR ''.'' \<in> set (lower s) \<longleftrightarrow> (\<exists>c \<in> set s. lower_char c = CHR ''.'')"
    unfolding lower_def set_map image_iff by metis
  then show ?thesis by (simp add: lower_char_dot)
qed

lemma strip_member: "\<not> is_space c \<Longrightarrow> c \<in> set (strip s) \<longleftrightarrow> c \<in> set s"
proof
  assume "c \<in> set (strip s)"
  then show "c \<in> set s" by (auto simp: strip_def dest!: set_dropWhileD)
next
  assume n: "\<not> is_space c" and c: "c \<in> set s"
  have keep: "\<And>xs. c \<in> set xs \<Longrightarrow> c \<in> set (dropWhile is_space xs)"
  proof -
    fix xs show "c \<in> set xs \<Longrightarrow> c \<in> set (dropWhile is_space xs)"
      using n by (induction xs) auto
  qed
  have "c \<in> set (rev (dropWhile is_space (rev s)))" using keep [of "rev s"] c by simp
  then show "c \<in> set (strip s)" unfolding strip_def by (rule keep)
qed

lemma strip_version_parts:
  "strip_version s = (b, v) \<Longrightarrow>
     \<exists>nl. s = b @ v @ nl \<and> CHR ''.'' \<notin> set v \<and> CHR ''.'' \<notin> set nl"
proof (cases "search_version s")
  case None
  assume "strip_version s = (b, v)"
  with None have "b = s" "v = []" by (simp_all add: strip_version_def)
  then show ?thesis by simp
next
  case (Some pm)
  assume a: "strip_version s = (b, v)"
  with Some have sm: "search_version s = Some (b, v)" by (cases pm) (simp add: strip_version_def)
  from search_version_Some [OF sm] obtain ds nl where
    m: "v = ''_v'' @ ds" "list_all is_digit ds" "nl = [] \<or> nl = [CHR 0x0A]" "s = b @ v @ nl"
    by blast
  have "CHR ''.'' \<notin> set ds" using m(2) dot_not_digit by (auto simp: list_all_iff)
  with m show ?thesis by auto
qed

lemma key_dot_parts:
  assumes "splitext n = (s, e)" and "strip_version s = (b, v)"
  shows "CHR ''.'' \<in> set (normalize_filename n) \<longleftrightarrow> CHR ''.'' \<in> set b \<or> CHR ''.'' \<in> set e"
  using assms dot_not_sep
  by (simp add: normalize_filename_eq [OF assms] lower_dot strip_member [OF dot_not_space])

lemma normalize_dot: "CHR ''.'' \<in> set (normalize_filename n) \<longleftrightarrow> CHR ''.'' \<in> set n"
proof -
  obtain s e where sp: "splitext n = (s, e)" by (cases "splitext n")
  obtain b v where sv: "strip_version s = (b, v)" by (cases "strip_version s")
  from strip_version_parts [OF sv] obtain nl where
    s: "s = b @ v @ nl" "CHR ''.'' \<notin> set v" "CHR ''.'' \<notin> set nl" by blast
  have "n = s @ e" using splitext_concat [OF sp] .
  with s have "CHR ''.'' \<in> set n \<longleftrightarrow> CHR ''.'' \<in> set b \<or> CHR ''.'' \<in> set e" by auto
  with key_dot_parts [OF sp sv] show ?thesis by simp
qed

lemma search_final_alpha_Some:
  "search_final_alpha b = Some m \<Longrightarrow> b \<noteq> [] \<and> last b \<noteq> CHR ''.''"
  by (cases b rule: rev_cases)
     (auto simp: search_final_alpha_def dot_not_alpha split: if_splits list.splits)

lemma convert_dot:
  "CHR ''.'' \<in> set (convert_alpha_to_numeric_suffix n) \<longleftrightarrow> CHR ''.'' \<in> set n"
proof -
  obtain s e where sp: "splitext n = (s, e)" by (cases "splitext n")
  obtain b v where sv: "strip_version s = (b, v)" by (cases "strip_version s")
  from strip_version_parts [OF sv] obtain nl where
    s: "s = b @ v @ nl" "CHR ''.'' \<notin> set v" "CHR ''.'' \<notin> set nl" by blast
  have n: "n = s @ e" using splitext_concat [OF sp] .
  with s have nd: "CHR ''.'' \<in> set n \<longleftrightarrow> CHR ''.'' \<in> set b \<or> CHR ''.'' \<in> set e" by auto
  show ?thesis
  proof (cases "search_final_alpha b")
    case None
    then have "convert_alpha_to_numeric_suffix n = b @ v @ e"
      using sp sv by (simp add: convert_alpha_to_numeric_suffix_def)
    with nd s show ?thesis by auto
  next
    case (Some m)
    from search_final_alpha_Some [OF Some] obtain b' l where b: "b = b' @ [l]" "l \<noteq> CHR ''.''"
      by (cases b rule: rev_cases) auto
    have dg: "\<And>k. CHR ''.'' \<notin> set (str_nat k)"
      using str_nat_digits dot_not_digit by (auto simp: list_all_iff)
    have "convert_alpha_to_numeric_suffix n
            = b' @ str_nat (py_ord (upper_char m) - py_ord CHR ''A'' + 1) @ v @ e"
      using sp sv Some b by (simp add: convert_alpha_to_numeric_suffix_def Let_def)
    with nd s b dg show ?thesis by auto
  qed
qed

lemma alpha_numeric_dot:
  "CHR ''.'' \<in> set (normalize_filename_with_alpha_numeric n) \<longleftrightarrow> CHR ''.'' \<in> set n"
  by (simp add: normalize_filename_with_alpha_numeric_def normalize_dot convert_dot)

lemma variant_match_dot:
  assumes "CHR ''.'' \<in> set filename" and "CHR ''.'' \<notin> set f"
  shows "\<not> variant_match filename f"
proof -
  have a: "CHR ''.'' \<in> set (normalize_filename filename)"
    "CHR ''.'' \<in> set (normalize_filename_with_alpha_numeric filename)"
    using assms(1) by (simp_all add: normalize_dot alpha_numeric_dot)
  have b: "CHR ''.'' \<notin> set (normalize_filename f)"
    "CHR ''.'' \<notin> set (normalize_filename_with_alpha_numeric f)"
    using assms(2) by (simp_all add: normalize_dot alpha_numeric_dot)
  from a b show ?thesis unfolding variant_match_def Let_def by metis
qed



lemma dict_append_keeps:
  assumes "\<forall>(k, vs) \<in> set d. \<forall>x \<in> set vs. g x = Some k" and "g v = Some key"
  shows "\<forall>(k, vs) \<in> set (dict_append d key v). \<forall>x \<in> set vs. g x = Some k"
  using assms by (induction d key v rule: dict_append.induct) auto

lemma foldl_brand_files:
  assumes "\<forall>(k, vs) \<in> set d. \<forall>x \<in> set vs. brand_of x = Some k"
  shows "\<forall>(k, vs) \<in> set (foldl (\<lambda>brand_files filename.
              case brand_of filename of Some name \<Rightarrow> dict_append brand_files name filename
              | None \<Rightarrow> brand_files) d xs). \<forall>x \<in> set vs. brand_of x = Some k"
  using assms
proof (induction xs arbitrary: d)
  case Nil
  then show ?case by simp
next
  case (Cons x xs)
  show ?case
  proof (cases "brand_of x")
    case None
    with Cons show ?thesis by simp
  next
    case (Some name)
    have "\<forall>(k, vs) \<in> set (dict_append d name x). \<forall>y \<in> set vs. brand_of y = Some k"
      using Cons.prems Some by (rule dict_append_keeps)
    from Cons.IH [OF this] Some show ?thesis by simp
  qed
qed

lemma collect_brand_files_brand:
  "(b, fs) \<in> set (collect_brand_files t) \<Longrightarrow> f \<in> set fs \<Longrightarrow> brand_of f = Some b"
proof -
  assume a: "(b, fs) \<in> set (collect_brand_files t)" and f: "f \<in> set fs"
  have "\<forall>(k, vs) \<in> set (collect_brand_files t). \<forall>x \<in> set vs. brand_of x = Some k"
    unfolding collect_brand_files_def by (rule foldl_brand_files) simp
  with a f show ?thesis by blast
qed


lemma find_existing_file_variant_match:
  "find_existing_file_variant t folder filename = Some p \<Longrightarrow>
     \<exists>f. p = folder @ [f] \<and> variant_match filename f"
proof -
  assume a: "find_existing_file_variant t folder filename = Some p"
  then obtain d where d: "lookup t folder = Some d"
    by (auto simp: find_existing_file_variant_def split: option.splits)
  let ?m = "filter (\<lambda>e. \<not> is_dir e \<and> variant_match filename (node_name e)) (entries d)"
  from a d obtain e r where er: "?m = e # r" and p: "p = folder @ [node_name e]"
    by (auto simp: find_existing_file_variant_def split: list.splits)
  have "e \<in> set ?m" using er by simp
  then have "variant_match filename (node_name e)" by simp
  with p show ?thesis by blast
qed

text \<open>
  What holds of a file whose name contains no dot: it has no brand in the grouping pass
  and so belongs to no brand's file list, and the duplicate test never matches it against
  a name that contains a dot, as the names of all processed files do (the keys of a name
  contain a dot exactly when the name does).  So \<open>find_existing_file_variant\<close> never
  returns such a file for a processed file.
\<close>

lemma dotless_file_not_selected:
  assumes "CHR ''.'' \<notin> set f"
  shows "brand_of f = None
       \<and> (\<forall>b fs. (b, fs) \<in> set (collect_brand_files t) \<longrightarrow> f \<notin> set fs)
       \<and> (\<forall>filename. CHR ''.'' \<in> set filename \<longrightarrow>
             \<not> variant_match filename f
             \<and> find_existing_file_variant t' folder filename \<noteq> Some (folder @ [f]))"
proof -
  have a: "brand_of f = None" using assms by (simp add: brand_of_def)
  have b: "\<forall>b fs. (b, fs) \<in> set (collect_brand_files t) \<longrightarrow> f \<notin> set fs"
  proof (intro allI impI notI)
    fix b fs assume "(b, fs) \<in> set (collect_brand_files t)" "f \<in> set fs"
    then have "brand_of f = Some b" by (rule collect_brand_files_brand)
    with a show False by simp
  qed
  have c: "\<And>filename. CHR ''.'' \<in> set filename \<Longrightarrow> \<not> variant_match filename f"
    using assms by (simp add: variant_match_dot)
  have d: "\<And>filename. CHR ''.'' \<in> set filename \<Longrightarrow>
             find_existing_file_variant t' folder filename \<noteq> Some (folder @ [f])"
  proof
    fix filename assume h: "CHR ''.'' \<in> set filename"
      "find_existing_file_variant t' folder filename = Some (folder @ [f])"
    from find_existing_file_variant_match [OF h(2)] have "variant_match filename f" by auto
    with c [OF h(1)] show False by simp
  qed
  from a b c d show ?thesis by blast
qed



text \<open>The file name \<open>.hidden\<close> contains a dot and has a brand, so it is processed; its
  extension is empty.\<close>

lemma hidden_file_is_processed:
  "CHR ''.'' \<in> set ''.hidden'' \<and> brand_of ''.hidden'' = Some ''.hidden''
   \<and> snd (splitext ''.hidden'') = [] \<and> normalize_filename ''.hidden'' = ''.hidden''"
  by code_simp


text \<open>
  Claim C10.  An organizing run leaves a file whose name contains no dot at its path.
  This fails: what stands at the destination path of an incoming file is moved into the
  Old Images folder also when it is a directory, since that test is \<open>os.path.exists\<close>
  where the duplicate test asks for a regular file.  Here the directory
  \<open>Widget/JPEG/Widget-A100.jpg\<close> stands at the destination of the incoming file
  \<open>Widget-A100.jpg\<close>; it is moved and renamed as a whole, and the file \<open>README\<close> in
  it, whose name has no dot, is no longer at its path after the run.
\<close>

theorem dotless_file_moved_with_directory:
  "CHR ''.'' \<notin> set ''README''
   \<and> lookup (Dir ''webp'' [File ''Widget-A100.jpg'' 1,
              Dir ''Widget'' [Dir ''JPEG'' [Dir ''Widget-A100.jpg'' [File ''README'' 2]]]])
         [''Widget'', ''JPEG'', ''Widget-A100.jpg'', ''README''] = Some (File ''README'' 2)
   \<and> organize_webp_files (\<lambda>k. ''20260101_000000'') (\<lambda>p. True) (\<lambda>s d. True) (\<lambda>p. True)
       (Some (Dir ''webp'' [File ''Widget-A100.jpg'' 1,
                Dir ''Widget'' [Dir ''JPEG'' [Dir ''Widget-A100.jpg'' [File ''README'' 2]]]]))
     = Inr (Some (Dir ''webp''
             [Dir ''Widget''
               [Dir ''JPEG'' [File ''Widget-A100.jpg'' 1],
                Dir ''Old Images''
                 [Dir ''JPEG''
                   [Dir ''Widget-A100_replaced_20260101_000000.jpg'' [File ''README'' 2]]]]]),
            True)
   \<and> lookup (Dir ''webp''
             [Dir ''Widget''
               [Dir ''JPEG'' [File ''Widget-A100.jpg'' 1],
                Dir ''Old Images''
                 [Dir ''JPEG''
                   [Dir ''Widget-A100_replaced_20260101_000000.jpg'' [File ''README'' 2]]]]])
         [''Widget'', ''JPEG'', ''Widget-A100.jpg'', ''README''] = None"
  by code_simp

section \<open>Lookups after a change of the tree\<close>

lemma modify_dir_name: "node_name (modify_dir p f t) = node_name t"
  by (induction p f t rule: modify_dir.induct) auto

lemma modify_dir_is_dir: "is_dir (modify_dir p f t) = is_dir t"
  by (induction p f t rule: modify_dir.induct) auto

lemma lookup_File: "lookup (File n c) q = (if q = [] then Some (File n c) else None)"
  by (cases q) auto

lemma lookup_append: "lookup t (p @ q) = (case lookup t p of Some e \<Rightarrow> lookup e q | None \<Rightarrow> None)"
  by (induction p arbitrary: t) (auto split: option.splits)

lemma file_below_None:
  "lookup t p = Some (File n c) \<Longrightarrow> is_prefix p q \<Longrightarrow> p \<noteq> q \<Longrightarrow> lookup t q = None"
proof -
  assume a: "lookup t p = Some (File n c)" and b: "is_prefix p q" and c: "p \<noteq> q"
  from b obtain r where q: "q = p @ r" unfolding is_prefix_def by (metis append_take_drop_id)
  with c have "r \<noteq> []" by auto
  with a q show ?thesis by (simp add: lookup_append lookup_File)
qed

text \<open>Looking up the directory that was modified, and an entry of it.\<close>

lemma lookup_modify_dir_self:
  "lookup t p = Some (Dir n es) \<Longrightarrow> lookup (modify_dir p f t) p = Some (Dir n (f es))"
proof (induction p f t rule: modify_dir.induct)
  case (1 p f n c)
  then show ?case by (simp add: lookup_File split: if_splits)
next
  case (2 f n es)
  then show ?case by simp
next
  case (3 x p f m es')
  let ?g = "\<lambda>e. if node_name e = x then modify_dir p f e else e"
  from 3(2) obtain e where e: "find_entry x es' = Some e" and l: "lookup e p = Some (Dir n es)"
    by (auto split: option.splits)
  have ein: "e \<in> set es'" "node_name e = x" using e find_entry_Some by blast+
  have "find_entry x (map ?g es') = map_option ?g (find_entry x es')"
    by (rule find_entry_map) (simp add: modify_dir_name)
  with e ein 3(1) [OF ein(1) ein(2) l] show ?case by simp
qed

text \<open>A path that does not pass through the modified directory: the modified directory
  is not a prefix of it.\<close>

lemma lookup_modify_dir_other_None:
  "\<not> is_prefix p q \<Longrightarrow> lookup t q = None \<Longrightarrow> lookup (modify_dir p f t) q = None"
proof (induction p f t arbitrary: q rule: modify_dir.induct)
  case (1 p f n c)
  then show ?case by simp
next
  case (2 f n es)
  then show ?case by (simp add: is_prefix_def)
next
  case (3 x p f m es)
  let ?g = "\<lambda>e. if node_name e = x then modify_dir p f e else e"
  from 3(3) obtain y q' where q: "q = y # q'" by (cases q) auto
  have fm: "find_entry y (map ?g es) = map_option ?g (find_entry y es)"
    by (rule find_entry_map) (simp add: modify_dir_name)
  show ?case
  proof (cases "find_entry y es")
    case None
    with fm q show ?thesis by simp
  next
    case (Some e)
    then have ein: "e \<in> set es" "node_name e = y" using find_entry_Some by blast+
    from Some 3(3) q have l: "lookup e q' = None" by simp
    show ?thesis
    proof (cases "y = x")
      case True
      with 3(2) q have "\<not> is_prefix p q'" by (simp add: is_prefix_def)
      from 3(1) [OF ein(1) _ this l] True ein have "lookup (modify_dir p f e) q' = None" by simp
      with True ein Some fm q show ?thesis by simp
    next
      case False
      with ein Some fm q l show ?thesis by simp
    qed
  qed
qed




text \<open>Removing an entry leaves every directory that is not below it a directory.\<close>

lemma lookup_remove_at_Dir:
  "lookup t q = Some (Dir n es) \<Longrightarrow> \<not> is_prefix src q \<Longrightarrow>
   \<exists>es'. lookup (remove_at src t) q = Some (Dir n es')"
proof (induction src t arbitrary: q rule: remove_at.induct)
  case (1 p n' c)
  then show ?case by (simp add: lookup_File split: if_splits)
next
  case (2 n' es')
  then show ?case by simp
next
  case (3 x n' es')
  show ?case
  proof (cases q)
    case Nil
    with 3 show ?thesis by simp
  next
    case (Cons y q')
    with 3(2) have "x \<noteq> y" by (auto simp: is_prefix_def)
    with 3(1) Cons show ?thesis by (simp add: find_entry_filter)
  qed
next
  case (4 x y p n' es')
  let ?f = "\<lambda>e. if node_name e = x then remove_at (y # p) e else e"
  show ?case
  proof (cases q)
    case Nil
    with 4(2) show ?thesis by simp
  next
    case (Cons z q')
    with 4(2) obtain e where e: "find_entry z es' = Some e" and l: "lookup e q' = Some (Dir n es)"
      by (auto split: option.splits)
    have ein: "e \<in> set es'" "node_name e = z" using e find_entry_Some by blast+
    have fm: "find_entry z (map ?f es') = map_option ?f (find_entry z es')"
      by (rule find_entry_map) (simp add: remove_at_name)
    show ?thesis
    proof (cases "z = x")
      case True
      with 4(3) Cons have "\<not> is_prefix (y # p) q'" by (simp add: is_prefix_def)
      from 4(1) [OF ein(1) _ l this] True ein
      obtain es'' where "lookup (remove_at (y # p) e) q' = Some (Dir n es'')" by auto
      with True ein e fm Cons show ?thesis by simp
    next
      case False
      with ein e fm Cons l show ?thesis by simp
    qed
  qed
qed




lemma find_entry_replaced:
  "find_entry x (filter (\<lambda>e. node_name e \<noteq> x) es @ [File x c]) = Some (File x c)"
  by (induction es) auto


lemma same_kind_refl: "same_kind a a"
proof (cases a)
  case None
  then show ?thesis by simp
next
  case (Some x)
  then show ?thesis by (cases x) auto
qed

lemma same_kind_trans: "same_kind a b \<Longrightarrow> same_kind b c \<Longrightarrow> same_kind a c"
proof (cases a)
  case None
  assume "same_kind a b" "same_kind b c"
  with None show ?thesis by simp
next
  case (Some x)
  assume "same_kind a b" "same_kind b c"
  with Some show ?thesis by (cases x) (auto split: option.splits node.splits)
qed

lemma same_kind_Dir: "same_kind (Some (Dir m ms)) b \<Longrightarrow> \<exists>ms'. b = Some (Dir m ms')"
  by (auto split: option.splits node.splits)

lemma same_kind_Dirs: "same_kind (Some (Dir m ms)) (Some (Dir m ms'))"
  by simp

lemma find_entry_append:
  "find_entry y (xs @ ys) = (case find_entry y xs of Some e \<Rightarrow> Some e | None \<Rightarrow> find_entry y ys)"
  by (induction xs) auto

lemma is_prefix_snoc: "is_prefix p (q @ [x]) \<longleftrightarrow> p = q @ [x] \<or> is_prefix p q"
  by (cases "length p \<le> length q") (auto simp: is_prefix_def)

lemma below_None: "lookup t p = None \<Longrightarrow> is_prefix p q \<Longrightarrow> lookup t q = None"
proof -
  assume a: "lookup t p = None" and b: "is_prefix p q"
  from b obtain r where q: "q = p @ r" unfolding is_prefix_def by (metis append_take_drop_id)
  with a show ?thesis by (simp add: lookup_append)
qed

lemma lookup_modify_same_kind:
  assumes F: "\<And>es y. y \<noteq> new \<Longrightarrow> find_entry y (F es) = find_entry y es"
  shows "\<not> is_prefix (p @ [new]) q \<Longrightarrow> same_kind (lookup t q) (lookup (modify_dir p F t) q)"
proof (induction p arbitrary: t q)
  case Nil
  show ?case
  proof (cases t)
    case (File n c)
    then show ?thesis by (simp add: same_kind_refl)
  next
    case (Dir n es)
    show ?thesis
    proof (cases q)
      case Nil
      with Dir show ?thesis by simp
    next
      case (Cons y q')
      with Nil.prems have "y \<noteq> new" by (auto simp: is_prefix_def)
      from F [OF this] Dir Cons show ?thesis by (simp add: same_kind_refl)
    qed
  qed
next
  case (Cons x p)
  show ?case
  proof (cases t)
    case (File n c)
    then show ?thesis by (simp add: same_kind_refl)
  next
    case (Dir n es)
    let ?g = "\<lambda>e. if node_name e = x then modify_dir p F e else e"
    show ?thesis
    proof (cases q)
      case Nil
      with Dir show ?thesis by simp
    next
      case q: (Cons y q')
      have fm: "find_entry y (map ?g es) = map_option ?g (find_entry y es)"
        by (rule find_entry_map) (simp add: modify_dir_name)
      show ?thesis
      proof (cases "find_entry y es")
        case None
        with fm Dir q show ?thesis by simp
      next
        case (Some e)
        then have ein: "node_name e = y" using find_entry_Some by blast
        show ?thesis
        proof (cases "y = x")
          case True
          with Cons.prems q have "\<not> is_prefix (p @ [new]) q'" by (simp add: is_prefix_def)
          from Cons.IH [OF this] have "same_kind (lookup e q') (lookup (modify_dir p F e) q')" .
          with True ein Some fm Dir q show ?thesis by simp
        next
          case False
          with ein Some fm Dir q show ?thesis by (simp add: same_kind_refl)
        qed
      qed
    qed
  qed
qed

lemma lookup_remove_same_kind:
  "\<not> is_prefix src q \<Longrightarrow> same_kind (lookup t q) (lookup (remove_at src t) q)"
proof (induction src t arbitrary: q rule: remove_at.induct)
  case (1 p n c)
  then show ?case by (simp add: same_kind_refl)
next
  case (2 n es)
  then show ?case by (simp add: same_kind_refl)
next
  case (3 x n es)
  show ?case
  proof (cases q)
    case Nil
    then show ?thesis by simp
  next
    case (Cons y q')
    with 3 have "x \<noteq> y" by (auto simp: is_prefix_def)
    with Cons show ?thesis by (simp add: find_entry_filter same_kind_refl)
  qed
next
  case (4 x y p n es)
  let ?f = "\<lambda>e. if node_name e = x then remove_at (y # p) e else e"
  show ?case
  proof (cases q)
    case Nil
    then show ?thesis by simp
  next
    case q: (Cons z q')
    have fm: "find_entry z (map ?f es) = map_option ?f (find_entry z es)"
      by (rule find_entry_map) (simp add: remove_at_name)
    show ?thesis
    proof (cases "find_entry z es")
      case None
      with fm q show ?thesis by simp
    next
      case (Some e)
      then have ein: "e \<in> set es" "node_name e = z" using find_entry_Some by blast+
      show ?thesis
      proof (cases "z = x")
        case True
        with 4(2) q have "\<not> is_prefix (y # p) q'" by (simp add: is_prefix_def)
        from 4(1) [OF ein(1) _ this] True ein
        have "same_kind (lookup e q') (lookup (remove_at (y # p) e) q')" by simp
        with True ein Some fm q show ?thesis by simp
      next
        case False
        with ein Some fm q show ?thesis by (simp add: same_kind_refl)
      qed
    qed
  qed
qed


lemma lookup_wf: "wf_tree t \<Longrightarrow> lookup t p = Some d \<Longrightarrow> wf_tree d"
proof (induction p arbitrary: t)
  case Nil
  then show ?case by simp
next
  case (Cons x p)
  from Cons.prems(2) obtain e where f: "find_entry x (entries t) = Some e" and l: "lookup e p = Some d"
    by (auto split: option.splits)
  from f have "e \<in> set (entries t)" using find_entry_Some by blast
  with Cons.prems(1) have "wf_tree e" by (cases t) (auto simp: list_all_iff)
  from Cons.IH [OF this l] show ?case .
qed








text \<open>Moving a regular file onto a path that is free or holds a regular file, in a
  directory, when the operating system moves it: the file arrives with its content, its
  old path is free, and every other path finds what it found.\<close>

lemma move_file_onto:
  assumes src: "lookup t src = Some (File n c)"
    and par: "lookup t dparent = Some (Dir m ms)"
    and nodir: "\<forall>m' ms'. lookup t (dparent @ [new]) \<noteq> Some (Dir m' ms')"
    and ne: "src \<noteq> dparent @ [new]"
    and ok: "mv src (dparent @ [new])"
  shows "\<exists>t'. shutil_move mv src (dparent @ [new]) t = Some t'
           \<and> lookup t' (dparent @ [new]) = Some (File new c)
           \<and> lookup t' src = None
           \<and> (\<forall>q. q \<noteq> src \<longrightarrow> q \<noteq> dparent @ [new] \<longrightarrow> same_kind (lookup t q) (lookup t' q))"
proof -
  let ?dst = "dparent @ [new]"
  let ?F = "\<lambda>es. filter (\<lambda>e. node_name e \<noteq> new) es @ [rename_node new (File n c)]"
  let ?t1 = "remove_at src t"
  let ?t' = "modify_dir dparent ?F ?t1"
  have F: "\<And>es y. y \<noteq> new \<Longrightarrow> find_entry y (?F es) = find_entry y es"
    by (simp add: find_entry_append find_entry_filter split: option.splits)
  have srcne: "src \<noteq> []"
  proof
    assume "src = []"
    with src have "t = File n c" by simp
    with par show False by (simp add: lookup_File split: if_splits)
  qed
  have ne': "src \<noteq> dparent" using src par by auto
  have np1: "\<not> is_prefix src dparent"
  proof
    assume "is_prefix src dparent"
    from file_below_None [OF src this ne'] par show False by simp
  qed
  have np: "\<not> is_prefix src ?dst" using np1 ne by (simp add: is_prefix_snoc)
  have below: "\<And>q. is_prefix ?dst q \<Longrightarrow> q \<noteq> ?dst \<Longrightarrow> lookup t q = None"
  proof -
    fix q assume p: "is_prefix ?dst q" and q: "q \<noteq> ?dst"
    show "lookup t q = None"
    proof (cases "lookup t ?dst")
      case None
      from below_None [OF None p] show ?thesis .
    next
      case (Some y)
      with nodir obtain n' c' where "y = File n' c'" by (cases y) auto
      with Some have "lookup t ?dst = Some (File n' c')" by simp
      from file_below_None [OF this p] q show ?thesis by simp
    qed
  qed
  have np2: "\<not> is_prefix ?dst src"
  proof
    assume "is_prefix ?dst src"
    from below [OF this ne] src show False by simp
  qed
  have into: "(case lookup t ?dst of Some (Dir n es) \<Rightarrow> True | _ \<Rightarrow> False) = False"
    using nodir by (auto split: option.splits node.splits)
  have mv: "shutil_move mv src ?dst t = Some ?t'"
    unfolding shutil_move_def using src par np srcne ne ok by (simp add: into)
  from lookup_remove_same_kind [OF np1, of t] par
  obtain ms' where o1: "lookup ?t1 dparent = Some (Dir m ms')"
    using same_kind_Dir by fastforce
  have o2: "lookup ?t' dparent = Some (Dir m (?F ms'))" by (rule lookup_modify_dir_self [OF o1])
  have a: "lookup ?t' ?dst = Some (File new c)"
    using o2 by (simp add: lookup_append find_entry_replaced)
  have s1: "lookup ?t1 src = None" by (rule lookup_remove_self [OF srcne])
  have b: "lookup ?t' src = None"
    using lookup_modify_same_kind [of new ?F dparent src ?t1, OF F np2] s1 by simp
  have fr: "\<forall>q. q \<noteq> src \<longrightarrow> q \<noteq> ?dst \<longrightarrow> same_kind (lookup t q) (lookup ?t' q)"
  proof (intro allI impI)
    fix q assume q1: "q \<noteq> src" and q2: "q \<noteq> ?dst"
    show "same_kind (lookup t q) (lookup ?t' q)"
    proof (cases "is_prefix ?dst q")
      case True
      from below [OF True q2] have "lookup t q = None" .
      moreover from file_below_None [OF a True] q2 have "lookup ?t' q = None" by simp
      ultimately show ?thesis by simp
    next
      case dq: False
      have m: "same_kind (lookup ?t1 q) (lookup ?t' q)"
        by (rule lookup_modify_same_kind [of new ?F dparent q ?t1, OF F dq])
      show ?thesis
      proof (cases "is_prefix src q")
        case True
        from file_below_None [OF src True] q1 have l: "lookup t q = None" by simp
        from lookup_remove_absent [OF this] have "lookup ?t1 q = None" .
        with m l show ?thesis by simp
      next
        case False
        from same_kind_trans [OF lookup_remove_same_kind [OF False] m] show ?thesis .
      qed
    qed
  qed
  from mv a b fr show ?thesis by blast
qed


section \<open>The collision resolver\<close>





text \<open>When the operating system refuses the move into the Old Images folder, the failure
  is caught: the variant stays, and the incoming file is moved beside it.\<close>

lemma refused_move_leaves_variant:
  "place_file (\<lambda>k. ''20260101_000000'') (\<lambda>p. True)
       (\<lambda>s d. d \<noteq> [''Widget'', ''A'', ''Old Images'', ''JPEG'', ''widget-a_replaced_20260101_000000.jpg''])
       [''Widget'', ''A''] ''Widget_A.jpg''
       (Dir ''webp'' [File ''Widget_A.jpg'' 7,
          Dir ''Widget'' [Dir ''A'' [Dir ''JPEG'' [File ''widget-a.jpg'' 5]]]], 0)
     = Inr (Dir ''webp''
             [Dir ''Widget''
               [Dir ''A''
                 [Dir ''JPEG'' [File ''widget-a.jpg'' 5, File ''Widget_A.jpg'' 7],
                  Dir ''Old Images'' [Dir ''JPEG'' []]]]], 1)"
  by code_simp

section \<open>The version chain of the splitter\<close>

text \<open>The renaming loop over files that exist, with new names that are free and differ,
  when the operating system carries out the moves.\<close>

lemma version_files_ok:
  fixes evs :: "(nat \<times> 'a \<times> path) list"
  assumes "\<exists>w ws. lookup t webp = Some (Dir w ws)"
    and "\<forall>x \<in> set evs. (\<exists>n c. lookup t (snd (snd x)) = Some (File n c))
                        \<and> lookup t (new_path webp (snd (snd x)) (fst x)) = None"
    and "distinct (map (\<lambda>x. snd (snd x)) evs)"
    and "distinct (map (\<lambda>x. new_path webp (snd (snd x)) (fst x)) evs)"
    and "\<forall>x \<in> set evs. mv (snd (snd x)) (new_path webp (snd (snd x)) (fst x))"
  shows "\<exists>t'. fold_err (version_file mv webp) evs t = Inr t'
           \<and> (\<forall>x \<in> set evs. \<forall>n c. lookup t (snd (snd x)) = Some (File n c) \<longrightarrow>
                  lookup t' (new_path webp (snd (snd x)) (fst x))
                    = Some (File (path_name (get_versioned_filename (snd (snd x)) (fst x))) c)
                  \<and> lookup t' (snd (snd x)) = None)
           \<and> (\<forall>q. q \<notin> (\<lambda>x. snd (snd x)) ` set evs \<longrightarrow>
                   q \<notin> (\<lambda>x. new_path webp (snd (snd x)) (fst x)) ` set evs \<longrightarrow>
                   same_kind (lookup t q) (lookup t' q))"
  using assms
proof (induction evs arbitrary: t)
  case Nil
  then show ?case by (simp add: same_kind_refl)
next
  case (Cons x evs)
  let ?S = "\<lambda>x::nat \<times> 'a \<times> path. snd (snd x)"
  let ?D = "\<lambda>x::nat \<times> 'a \<times> path. new_path webp (snd (snd x)) (fst x)"
  from Cons.prems(1) obtain w ws where wd: "lookup t webp = Some (Dir w ws)" by blast
  from Cons.prems(2) obtain n0 c0 where s0: "lookup t (?S x) = Some (File n0 c0)"
    and d0: "lookup t (?D x) = None" by auto
  have dx: "?D x = webp @ [path_name (get_versioned_filename (?S x) (fst x))]"
    by (simp add: new_path_def)
  from Cons.prems(5) have ok: "mv (?S x) (webp @ [path_name (get_versioned_filename (?S x) (fst x))])"
    by (simp add: new_path_def)
  from d0 have nd: "\<forall>m' ms'. lookup t (webp @ [path_name (get_versioned_filename (?S x) (fst x))])
                      \<noteq> Some (Dir m' ms')" by (simp add: new_path_def)
  from s0 d0 have sd: "?S x \<noteq> webp @ [path_name (get_versioned_filename (?S x) (fst x))]"
    by (auto simp: new_path_def)
  from move_file_onto [where mv = mv, OF s0 wd nd sd ok] obtain t1 where
    mv: "shutil_move mv (?S x) (?D x) t = Some t1"
    and a1: "lookup t1 (?D x) = Some (File (path_name (get_versioned_filename (?S x) (fst x))) c0)"
    and b1: "lookup t1 (?S x) = None"
    and f1: "\<forall>q. q \<noteq> ?S x \<longrightarrow> q \<noteq> ?D x \<longrightarrow> same_kind (lookup t q) (lookup t1 q)"
    unfolding dx by blast
  have step: "version_file mv webp x t = Inr t1"
    unfolding version_file_def using s0 mv by (simp add: case_prod_beta)
  have rest: "\<And>y. y \<in> set evs \<Longrightarrow> ?S y \<noteq> ?S x \<and> ?S y \<noteq> ?D x \<and> ?D y \<noteq> ?D x \<and> ?D y \<noteq> ?S x"
  proof -
    fix y assume y: "y \<in> set evs"
    with Cons.prems(2) obtain n c where sy: "lookup t (?S y) = Some (File n c)"
      and dy: "lookup t (?D y) = None" by auto
    from Cons.prems(3) have "?S x \<notin> ?S ` set evs" by simp
    with y have 1: "?S y \<noteq> ?S x" by (metis (no_types, lifting) imageI)
    from Cons.prems(4) have "?D x \<notin> ?D ` set evs" by simp
    with y have 3: "?D y \<noteq> ?D x" by (metis (no_types, lifting) imageI)
    from sy d0 have 2: "?S y \<noteq> ?D x" by auto
    from dy s0 have 4: "?D y \<noteq> ?S x" by auto
    from 1 2 3 4 show "?S y \<noteq> ?S x \<and> ?S y \<noteq> ?D x \<and> ?D y \<noteq> ?D x \<and> ?D y \<noteq> ?S x" by blast
  qed
  have keepS: "\<And>y n c. y \<in> set evs \<Longrightarrow> lookup t (?S y) = Some (File n c) \<Longrightarrow> lookup t1 (?S y) = Some (File n c)"
  proof -
    fix y n c assume y: "y \<in> set evs" and l: "lookup t (?S y) = Some (File n c)"
    from rest [OF y] f1 have "same_kind (lookup t (?S y)) (lookup t1 (?S y))" by blast
    with l show "lookup t1 (?S y) = Some (File n c)" by simp
  qed
  have keepD: "\<And>y. y \<in> set evs \<Longrightarrow> lookup t1 (?D y) = None"
  proof -
    fix y assume y: "y \<in> set evs"
    with Cons.prems(2) have dy: "lookup t (?D y) = None" by auto
    from rest [OF y] f1 have "same_kind (lookup t (?D y)) (lookup t1 (?D y))" by blast
    with dy show "lookup t1 (?D y) = None" by simp
  qed
  have w1: "\<exists>w ws. lookup t1 webp = Some (Dir w ws)"
  proof -
    have "webp \<noteq> ?S x" "webp \<noteq> ?D x" using wd s0 d0 by auto
    with f1 have "same_kind (lookup t webp) (lookup t1 webp)" by blast
    with wd show ?thesis using same_kind_Dir by fastforce
  qed
  have p2: "\<forall>y \<in> set evs. (\<exists>n c. lookup t1 (?S y) = Some (File n c)) \<and> lookup t1 (?D y) = None"
  proof
    fix y assume y: "y \<in> set evs"
    with Cons.prems(2) obtain n c where "lookup t (?S y) = Some (File n c)" by auto
    from keepS [OF y this] keepD [OF y]
    show "(\<exists>n c. lookup t1 (?S y) = Some (File n c)) \<and> lookup t1 (?D y) = None" by blast
  qed
  from Cons.prems(3) have p3: "distinct (map ?S evs)" by simp
  from Cons.prems(4) have p4: "distinct (map ?D evs)" by simp
  from Cons.prems(5) have p5: "\<forall>y \<in> set evs. mv (?S y) (?D y)" by simp
  from Cons.IH [OF w1 p2 p3 p4 p5] obtain t' where all:
    "fold_err (version_file mv webp) evs t1 = Inr t'
       \<and> (\<forall>y \<in> set evs. \<forall>n c. lookup t1 (?S y) = Some (File n c) \<longrightarrow>
              lookup t' (?D y) = Some (File (path_name (get_versioned_filename (?S y) (fst y))) c)
              \<and> lookup t' (?S y) = None)
       \<and> (\<forall>q. q \<notin> ?S ` set evs \<longrightarrow> q \<notin> ?D ` set evs \<longrightarrow> same_kind (lookup t1 q) (lookup t' q))" ..
  from all have r: "fold_err (version_file mv webp) evs t1 = Inr t'" by (rule conjunct1)
  from all have i1: "\<And>y n c. y \<in> set evs \<Longrightarrow> lookup t1 (?S y) = Some (File n c) \<Longrightarrow>
      lookup t' (?D y) = Some (File (path_name (get_versioned_filename (?S y) (fst y))) c)
      \<and> lookup t' (?S y) = None" by blast
  from all have i2: "\<And>q. q \<notin> ?S ` set evs \<Longrightarrow> q \<notin> ?D ` set evs \<Longrightarrow> same_kind (lookup t1 q) (lookup t' q)"
    by blast
  have res: "fold_err (version_file mv webp) (x # evs) t = Inr t'" using step r by simp
  have notinS: "?S x \<notin> ?S ` set evs" "?D x \<notin> ?S ` set evs" using rest by fastforce+
  have notinD: "?S x \<notin> ?D ` set evs" "?D x \<notin> ?D ` set evs" using rest by fastforce+
  have hx: "\<And>n c. lookup t (?S x) = Some (File n c) \<Longrightarrow>
      lookup t' (?D x) = Some (File (path_name (get_versioned_filename (?S x) (fst x))) c)
      \<and> lookup t' (?S x) = None"
  proof -
    fix n c assume "lookup t (?S x) = Some (File n c)"
    with s0 have c: "c = c0" by simp
    from i2 [OF notinS(2) notinD(2)] a1
    have 1: "lookup t' (?D x) = Some (File (path_name (get_versioned_filename (?S x) (fst x))) c0)" by simp
    from i2 [OF notinS(1) notinD(1)] b1 have 2: "lookup t' (?S x) = None" by simp
    from 1 2 c show "lookup t' (?D x) = Some (File (path_name (get_versioned_filename (?S x) (fst x))) c)
      \<and> lookup t' (?S x) = None" by simp
  qed
  have hall: "\<forall>y \<in> set (x # evs). \<forall>n c. lookup t (?S y) = Some (File n c) \<longrightarrow>
      lookup t' (?D y) = Some (File (path_name (get_versioned_filename (?S y) (fst y))) c)
      \<and> lookup t' (?S y) = None"
  proof (intro ballI allI impI)
    fix y n c assume y: "y \<in> set (x # evs)" and l: "lookup t (?S y) = Some (File n c)"
    show "lookup t' (?D y) = Some (File (path_name (get_versioned_filename (?S y) (fst y))) c)
      \<and> lookup t' (?S y) = None"
    proof (cases "y = x")
      case True
      from l have "lookup t (?S x) = Some (File n c)" unfolding True .
      from hx [OF this] show ?thesis unfolding True .
    next
      case False
      with y have y': "y \<in> set evs" by simp
      from i1 [OF y' keepS [OF y' l]] show ?thesis .
    qed
  qed
  have frame: "\<forall>q. q \<notin> ?S ` set (x # evs) \<longrightarrow> q \<notin> ?D ` set (x # evs) \<longrightarrow>
      same_kind (lookup t q) (lookup t' q)"
  proof (intro allI impI)
    fix q assume qs: "q \<notin> ?S ` set (x # evs)" and qd: "q \<notin> ?D ` set (x # evs)"
    then have "q \<noteq> ?S x" "q \<noteq> ?D x" "q \<notin> ?S ` set evs" "q \<notin> ?D ` set evs" by auto
    with f1 i2 have "same_kind (lookup t q) (lookup t1 q)" "same_kind (lookup t1 q) (lookup t' q)"
      by blast+
    then show "same_kind (lookup t q) (lookup t' q)" by (rule same_kind_trans)
  qed
  from res hall frame show ?case by blast
qed


lemma glob_distinct: "wf_tree t \<Longrightarrow> distinct (glob t directory base_name extension)"
proof -
  assume wf: "wf_tree t"
  let ?es = "case lookup t directory of Some d \<Rightarrow> entries d | None \<Rightarrow> []"
  have "distinct (map node_name ?es)"
  proof (cases "lookup t directory")
    case None
    then show ?thesis by simp
  next
    case (Some d)
    from lookup_wf [OF wf Some] Some show ?thesis by (cases d) auto
  qed
  then have "distinct (map node_name (filter (\<lambda>e. glob_match base_name extension (node_name e)) ?es))"
    by (rule distinct_map_filter)
  then have "distinct (map (\<lambda>n. directory @ [n])
      (map node_name (filter (\<lambda>e. glob_match base_name extension (node_name e)) ?es)))"
    by (simp add: distinct_map inj_on_def)
  then show ?thesis unfolding glob_def by (simp add: comp_def)
qed

lemma conflicting_files_props:
  fixes mtime :: "path \<Rightarrow> 'a::{linorder,zero} option"
  assumes wf: "wf_tree t" and cf: "files = conflicting_files mtime source_file dest_file t"
  shows "set (map snd files) = insert source_file
           (set (glob t (path_parent dest_file) (sub_version (path_stem (path_name dest_file)))
                   (path_suffix (path_name dest_file))))"
    and "distinct (map snd files)"
    and "sorted (map fst files)"
proof -
  let ?G = "glob t (path_parent dest_file) (sub_version (path_stem (path_name dest_file)))
              (path_suffix (path_name dest_file))"
  let ?X = "map (\<lambda>f. (get_file_timestamp mtime f, f)) (filter (\<lambda>f. f \<noteq> source_file) ?G)
              @ [(get_file_timestamp mtime source_file, source_file)]"
  have f: "files = sort_key fst ?X" unfolding cf conflicting_files_def Let_def ..
  have sX: "map snd ?X = filter (\<lambda>f. f \<noteq> source_file) ?G @ [source_file]"
    by (simp add: comp_def)
  have "set (map snd files) = snd ` set ?X" unfolding f by simp
  also have "\<dots> = set (map snd ?X)" by (simp only: set_map)
  also have "\<dots> = insert source_file (set ?G)" unfolding sX by auto
  finally show "set (map snd files) = insert source_file (set ?G)" .
  have "distinct (map snd ?X)" unfolding sX using glob_distinct [OF wf] by simp
  then have "distinct ?X" "inj_on snd (set ?X)" by (simp_all only: distinct_map)
  then have "distinct (sort_key fst ?X)" "inj_on snd (set (sort_key fst ?X))" by simp_all
  then show "distinct (map snd files)" unfolding f by (simp only: distinct_map)
  show "sorted (map fst files)" unfolding f by (rule sorted_sort_key)
qed

lemma enumerate_order:
  assumes "sorted (map fst (files :: ('a::linorder \<times> 'b) list))"
    and "(v, ts, p) \<in> set (enumerate k files)" and "(v', ts', p') \<in> set (enumerate k files)"
    and "ts < ts'"
  shows "v < v'"
proof (rule ccontr)
  assume "\<not> v < v'"
  then have le: "v' \<le> v" by simp
  from assms(2) have v: "k \<le> v" "v < k + length files" "files ! (v - k) = (ts, p)"
    by (simp_all add: in_set_enumerate_eq)
  from assms(3) have v': "k \<le> v'" "v' < k + length files" "files ! (v' - k) = (ts', p')"
    by (simp_all add: in_set_enumerate_eq)
  from le v v' have "v' - k \<le> v - k" "v - k < length files" by auto
  with assms(1) have "map fst files ! (v' - k) \<le> map fst files ! (v - k)"
    by (simp add: sorted_iff_nth_mono)
  with v v' le have "ts' \<le> ts" by simp
  with assms(4) show False by simp
qed

text \<open>
  Claim C2 (as amended).  For a destination name whose stem and suffix hold no
  metacharacter of the glob, \<open>resolve_conflict\<close> collects the source file and the entries
  of the destination directory whose name starts with the stem of the destination (without
  a version marker at its end) and ends with its suffix, sorts them by modification time,
  ascending, and numbers them from \<open>1\<close>: of two collected files, the one with the smaller
  time has the smaller number, whatever their names and the listing order.  When the
  collected entries are regular files, the webp folder is a directory, the new names are
  free there and differ from each other, and the operating system carries out the moves,
  the file with number \<open>N\<close> is afterwards in the webp folder, with its content, under its
  own stem (without a version marker at its end), \<open>_v\<close>, \<open>N\<close> and its own suffix, and
  nothing is left at its old path; the path returned is the new name of the source for the
  number of collected files.
\<close>

theorem version_chain:
  fixes mtime :: "path \<Rightarrow> 'a::{linorder,zero} option"
  assumes wf: "wf_tree t"
    and plain: "\<not> has_magic (sub_version (path_stem (path_name dest_file))
                             @ path_suffix (path_name dest_file))"
    and cf: "files = conflicting_files mtime source_file dest_file t"
    and exist: "\<forall>p \<in> set (map snd files). \<exists>n c. lookup t p = Some (File n c)"
    and webp: "lookup t webp_folder = Some (Dir w ws)"
    and fresh: "\<forall>(version, ts, p) \<in> set (enumerate 1 files).
                  lookup t (new_path webp_folder p version) = None"
    and differ: "distinct (map (\<lambda>(version, ts, p). new_path webp_folder p version) (enumerate 1 files))"
    and moves: "\<forall>(version, ts, p) \<in> set (enumerate 1 files). mv p (new_path webp_folder p version)"
  shows "set (map snd files) = insert source_file
           (set (glob t (path_parent dest_file) (sub_version (path_stem (path_name dest_file)))
                   (path_suffix (path_name dest_file))))
       \<and> distinct (map snd files)
       \<and> sorted (map fst files)
       \<and> (\<forall>(version, ts, p) \<in> set (enumerate 1 files).
            \<forall>(version', ts', p') \<in> set (enumerate 1 files). ts < ts' \<longrightarrow> version < version')
       \<and> (\<exists>t'. resolve_conflict mv mtime source_file dest_file webp_folder t
                  = Inr (new_path webp_folder source_file (length files), t')
              \<and> (\<forall>(version, ts, p) \<in> set (enumerate 1 files). \<forall>n c.
                    lookup t p = Some (File n c) \<longrightarrow>
                    lookup t' (new_path webp_folder p version)
                      = Some (File (path_name (get_versioned_filename p version)) c)
                    \<and> lookup t' p = None))"
proof -
  let ?evs = "enumerate 1 files"
  note props = conflicting_files_props [OF wf cf]
  have ord: "\<forall>(version, ts, p) \<in> set ?evs. \<forall>(version', ts', p') \<in> set ?evs. ts < ts' \<longrightarrow> version < version'"
    using enumerate_order [OF props(3)] by blast
  have sn: "map (\<lambda>x. snd (snd x)) ?evs = map snd files"
  proof -
    have "map snd (map snd ?evs) = map (\<lambda>x. snd (snd x)) ?evs" by (simp only: map_map comp_def)
    moreover have "map snd ?evs = files" by (rule map_snd_enumerate)
    ultimately show ?thesis by simp
  qed
  have h1: "\<exists>w ws. lookup t webp_folder = Some (Dir w ws)" using webp by blast
  have h2: "\<forall>x \<in> set ?evs. (\<exists>n c. lookup t (snd (snd x)) = Some (File n c))
                        \<and> lookup t (new_path webp_folder (snd (snd x)) (fst x)) = None"
  proof
    fix x assume x: "x \<in> set ?evs"
    then have "snd (snd x) \<in> set (map (\<lambda>x. snd (snd x)) ?evs)" by simp
    then have "snd (snd x) \<in> set (map snd files)" unfolding sn .
    with exist have a: "\<exists>n c. lookup t (snd (snd x)) = Some (File n c)" by blast
    from fresh x have b: "lookup t (new_path webp_folder (snd (snd x)) (fst x)) = None"
      by (auto simp: case_prod_beta)
    from a b show "(\<exists>n c. lookup t (snd (snd x)) = Some (File n c))
                        \<and> lookup t (new_path webp_folder (snd (snd x)) (fst x)) = None" ..
  qed
  have h3: "distinct (map (\<lambda>x. snd (snd x)) ?evs)" unfolding sn by (rule props(2))
  have h4: "distinct (map (\<lambda>x. new_path webp_folder (snd (snd x)) (fst x)) ?evs)"
  proof -
    have eq: "(\<lambda>(version, ts, p). new_path webp_folder p version)
                = (\<lambda>x::nat \<times> 'a \<times> path. new_path webp_folder (snd (snd x)) (fst x))"
      by (auto simp: fun_eq_iff)
    from differ show ?thesis unfolding eq .
  qed
  have h5: "\<forall>x \<in> set ?evs. mv (snd (snd x)) (new_path webp_folder (snd (snd x)) (fst x))"
    using moves by (auto simp: case_prod_beta)
  from version_files_ok [where mv = mv, OF h1 h2 h3 h4 h5] obtain t' where all:
    "fold_err (version_file mv webp_folder) ?evs t = Inr t'
       \<and> (\<forall>x \<in> set ?evs. \<forall>n c. lookup t (snd (snd x)) = Some (File n c) \<longrightarrow>
              lookup t' (new_path webp_folder (snd (snd x)) (fst x))
                = Some (File (path_name (get_versioned_filename (snd (snd x)) (fst x))) c)
              \<and> lookup t' (snd (snd x)) = None)
       \<and> (\<forall>q. q \<notin> (\<lambda>x. snd (snd x)) ` set ?evs \<longrightarrow>
               q \<notin> (\<lambda>x. new_path webp_folder (snd (snd x)) (fst x)) ` set ?evs \<longrightarrow>
               same_kind (lookup t q) (lookup t' q))" ..
  from all have r: "fold_err (version_file mv webp_folder) ?evs t = Inr t'" by (rule conjunct1)
  from all have m: "\<forall>(version, ts, p) \<in> set ?evs. \<forall>n c.
                    lookup t p = Some (File n c) \<longrightarrow>
                    lookup t' (new_path webp_folder p version)
                      = Some (File (path_name (get_versioned_filename p version)) c)
                    \<and> lookup t' p = None"
    by (simp add: case_prod_beta)
  note nm = plain
  have res: "resolve_conflict mv mtime source_file dest_file webp_folder t
                  = Inr (new_path webp_folder source_file (length files), t')"
    unfolding resolve_conflict_def Let_def cf [symmetric] using nm r by simp
  from res m have ex: "\<exists>t'. resolve_conflict mv mtime source_file dest_file webp_folder t
                  = Inr (new_path webp_folder source_file (length files), t')
              \<and> (\<forall>(version, ts, p) \<in> set ?evs. \<forall>n c.
                    lookup t p = Some (File n c) \<longrightarrow>
                    lookup t' (new_path webp_folder p version)
                      = Some (File (path_name (get_versioned_filename p version)) c)
                    \<and> lookup t' p = None)" by blast
  from props(1) props(2) props(3) ord ex show ?thesis by (intro conjI)
qed



theorem version_chain_witness:
  "\<exists>t'. resolve_conflict (\<lambda>s d. True)
          (map_of [([''webp'', ''shot-0.jpg''], 30::int), ([''webp'', ''shot-0_v7.jpg''], 10),
                   ([''in'', ''shot-0.jpg''], 20)])
          [''in'', ''shot-0.jpg''] [''webp'', ''shot-0.jpg''] [''webp'']
          (Dir ''main'' [Dir ''in'' [File ''shot-0.jpg'' 2],
             Dir ''webp'' [File ''shot-0.jpg'' 3, File ''other.jpg'' 4, File ''shot-0_v7.jpg'' 1]])
        = Inr ([''webp'', ''shot-0_v3.jpg''], t')
      \<and> lookup t' [''webp'', ''shot-0_v1.jpg''] = Some (File ''shot-0_v1.jpg'' 1)
      \<and> lookup t' [''webp'', ''shot-0_v2.jpg''] = Some (File ''shot-0_v2.jpg'' 2)
      \<and> lookup t' [''webp'', ''shot-0_v3.jpg''] = Some (File ''shot-0_v3.jpg'' 3)
      \<and> lookup t' [''webp'', ''shot-0_v7.jpg''] = None
      \<and> lookup t' [''in'', ''shot-0.jpg''] = None
      \<and> lookup t' [''webp'', ''shot-0.jpg''] = None"
proof -
  let ?M = "map_of [([''webp'', ''shot-0.jpg''], 30::int), ([''webp'', ''shot-0_v7.jpg''], 10),
                   ([''in'', ''shot-0.jpg''], 20)]"
  let ?T = "Dir ''main'' [Dir ''in'' [File ''shot-0.jpg'' 2],
             Dir ''webp'' [File ''shot-0.jpg'' 3, File ''other.jpg'' 4, File ''shot-0_v7.jpg'' 1]]"
  let ?p1 = "[''webp'', ''shot-0_v7.jpg'']"
  let ?p2 = "[''in'', ''shot-0.jpg'']"
  let ?p3 = "[''webp'', ''shot-0.jpg'']"
  let ?files = "[(10::int, ?p1), (20, ?p2), (30, ?p3)]"
  have wf: "wf_tree ?T" by code_simp
  have plain: "\<not> has_magic (sub_version (path_stem (path_name ?p3)) @ path_suffix (path_name ?p3))"
    by code_simp
  have cf: "?files = conflicting_files ?M ?p2 ?p3 ?T" by code_simp
  have e: "enumerate 1 ?files = [(1, 10, ?p1), (2, 20, ?p2), (3, 30, ?p3)]" by simp
  have n1: "new_path [''webp''] ?p1 1 = [''webp'', ''shot-0_v1.jpg'']" by code_simp
  have n1': "new_path [''webp''] ?p1 (Suc 0) = [''webp'', ''shot-0_v1.jpg'']" using n1 by simp
  have n2: "new_path [''webp''] ?p2 2 = [''webp'', ''shot-0_v2.jpg'']" by code_simp
  have n3: "new_path [''webp''] ?p3 3 = [''webp'', ''shot-0_v3.jpg'']" by code_simp
  have g1: "path_name (get_versioned_filename ?p1 1) = ''shot-0_v1.jpg''" by code_simp
  have g1': "path_name (get_versioned_filename ?p1 (Suc 0)) = ''shot-0_v1.jpg''" using g1 by simp
  have g2: "path_name (get_versioned_filename ?p2 2) = ''shot-0_v2.jpg''" by code_simp
  have g3: "path_name (get_versioned_filename ?p3 3) = ''shot-0_v3.jpg''" by code_simp
  have l1: "lookup ?T ?p1 = Some (File ''shot-0_v7.jpg'' 1)" by simp
  have l2: "lookup ?T ?p2 = Some (File ''shot-0.jpg'' 2)" by simp
  have l3: "lookup ?T ?p3 = Some (File ''shot-0.jpg'' 3)" by simp
  have exist: "\<forall>p \<in> set (map snd ?files). \<exists>n c. lookup ?T p = Some (File n c)"
    using l1 l2 l3 by (simp del: lookup.simps)
  have webp: "lookup ?T [''webp'']
      = Some (Dir ''webp'' [File ''shot-0.jpg'' 3, File ''other.jpg'' 4, File ''shot-0_v7.jpg'' 1])"
    by simp
  have f1: "lookup ?T [''webp'', ''shot-0_v1.jpg''] = None" by simp
  have f2: "lookup ?T [''webp'', ''shot-0_v2.jpg''] = None" by simp
  have f3: "lookup ?T [''webp'', ''shot-0_v3.jpg''] = None" by simp
  have fresh: "\<forall>(version, ts, p) \<in> set (enumerate 1 ?files).
                  lookup ?T (new_path [''webp''] p version) = None"
    unfolding e using f1 f2 f3 by (simp add: n1' n2 n3 del: lookup.simps)
  have differ: "distinct (map (\<lambda>(version, ts, p). new_path [''webp''] p version) (enumerate 1 ?files))"
    unfolding e by (simp add: n1' n2 n3)
  have moves: "\<forall>(version, ts, p) \<in> set (enumerate 1 ?files).
                 (\<lambda>s d. True) p (new_path [''webp''] p version)"
    by simp
  from version_chain [where mv = "\<lambda>s d. True", OF wf plain cf exist webp fresh differ moves]
  obtain t' where r: "resolve_conflict (\<lambda>s d. True) ?M ?p2 ?p3 [''webp''] ?T
                        = Inr (new_path [''webp''] ?p2 (length ?files), t')"
    and m: "\<forall>(version, ts, p) \<in> set (enumerate 1 ?files). \<forall>n c.
              lookup ?T p = Some (File n c) \<longrightarrow>
              lookup t' (new_path [''webp''] p version)
                = Some (File (path_name (get_versioned_filename p version)) c)
              \<and> lookup t' p = None"
    by blast
  have n: "new_path [''webp''] ?p2 (length ?files) = [''webp'', ''shot-0_v3.jpg'']" by code_simp
  from m l1 have m1: "lookup t' [''webp'', ''shot-0_v1.jpg''] = Some (File ''shot-0_v1.jpg'' 1)
                    \<and> lookup t' ?p1 = None"
    unfolding e by (simp add: n1' g1' del: lookup.simps)
  from m l2 have m2: "lookup t' [''webp'', ''shot-0_v2.jpg''] = Some (File ''shot-0_v2.jpg'' 2)
                    \<and> lookup t' ?p2 = None"
    unfolding e by (simp add: n2 g2 del: lookup.simps)
  from m l3 have m3: "lookup t' [''webp'', ''shot-0_v3.jpg''] = Some (File ''shot-0_v3.jpg'' 3)
                    \<and> lookup t' ?p3 = None"
    unfolding e by (simp add: n3 g3 del: lookup.simps)
  from r n m1 m2 m3 show ?thesis by (auto simp del: lookup.simps)
qed


text \<open>Three files with the same normalized key and increasing times, two of them in the
  destination directory.  The glob for \<open>shot-0*.jpg\<close> does not find \<open>shot_0.jpg\<close>: it
  keeps its name, and the other two become \<open>_v1\<close> and \<open>_v2\<close>.\<close>

theorem same_key_file_left_unversioned_counterexample:
  "normalize_filename ''shot_0.jpg'' = normalize_filename ''shot-0.jpg''
   \<and> resolve_conflict (\<lambda>s d. True)
       (map_of [([''webp'', ''shot-0.jpg''], 10::int), ([''webp'', ''shot_0.jpg''], 20),
                ([''in'', ''shot-0.jpg''], 30)])
       [''in'', ''shot-0.jpg''] [''webp'', ''shot-0.jpg''] [''webp'']
       (Dir ''main'' [Dir ''in'' [File ''shot-0.jpg'' 3],
          Dir ''webp'' [File ''shot-0.jpg'' 1, File ''shot_0.jpg'' 2]])
     = Inr ([''webp'', ''shot-0_v2.jpg''],
            Dir ''main'' [Dir ''in'' [],
              Dir ''webp'' [File ''shot_0.jpg'' 2, File ''shot-0_v1.jpg'' 1, File ''shot-0_v2.jpg'' 3]])"
  by code_simp

text \<open>When a new name is taken by a file that is renamed later, that file is
  overwritten: here the content \<open>2\<close> of \<open>shot-0_v1.jpg\<close> is lost.\<close>

lemma renaming_overwrites_later_file:
  "resolve_conflict (\<lambda>s d. True)
     (map_of [([''webp'', ''shot-0.jpg''], 30::int), ([''webp'', ''shot-0_v1.jpg''], 20),
              ([''in'', ''shot-0.jpg''], 10)])
     [''in'', ''shot-0.jpg''] [''webp'', ''shot-0.jpg''] [''webp'']
     (Dir ''main'' [Dir ''in'' [File ''shot-0.jpg'' 1],
        Dir ''webp'' [File ''shot-0.jpg'' 3, File ''shot-0_v1.jpg'' 2]])
   = Inr ([''webp'', ''shot-0_v3.jpg''],
          Dir ''main'' [Dir ''in'' [],
            Dir ''webp'' [File ''shot-0_v2.jpg'' 1, File ''shot-0_v3.jpg'' 3]])"
  by code_simp


end
